theory Spec2Isabelle
  imports Complex_Main "HOL-Library.Product_Lexorder" "HOL-Library.Char_ord"
    "HOL-Library.List_Lexorder"
begin

section \<open>Common values: errors and payloads\<close>

text \<open>
  The only exception the tree code can raise is Python's \<open>AttributeError\<close> (reading a
  field of \<open>None\<close>). \<open>dijkstra\<close> has three more: \<open>KeyError\<close> (\<open>dist[u]\<close>), \<open>TypeError\<close>
  (ordering two heap items whose vertex ids Python cannot compare) and \<open>IndexError\<close>
  (\<open>heappop\<close> of an empty list). A computation that may raise returns \<open>error + 'a\<close>, with
  \<open>Inl\<close> the exception.
\<close>

datatype error = AttributeError | KeyError | TypeError | IndexError

definition bind_result :: "error + 'a \<Rightarrow> ('a \<Rightarrow> error + 'b) \<Rightarrow> error + 'b" where
  "bind_result m f = (case m of Inl e \<Rightarrow> Inl e | Inr x \<Rightarrow> f x)"

text \<open>
  \<open>grafo.py\<close>, class \<open>Graph\<close>: \<open>adj\<close> is a \<open>defaultdict(list)\<close> from a vertex to its list
  of \<open>(neighbour, weight)\<close> pairs, kept here as an association list in insertion order (the
  order of \<open>adj.keys()\<close>); \<open>directed\<close> is the flag given to the constructor. Vertex ids
  are of any type \<open>'v\<close>; weights are Python numbers, of a type \<open>'w\<close> that the graph
  operations never look into.
\<close>

record ('v, 'w) Graph =
  adj :: "('v \<times> ('v \<times> 'w) list) list"
  directed :: bool

definition new_Graph :: "bool \<Rightarrow> ('v, 'w) Graph" where
  "new_Graph d = \<lparr>adj = [], directed = d\<rparr>"

text \<open>
  The payload of a node (\<open>data: Any\<close>): either \<open>None\<close> or a dictionary from strings to
  graphs, as \<open>main.py\<close> and the default of \<open>AVLTree.insert\<close> build it.
\<close>

datatype payload = PyNone | PyDict "(string \<times> (string, real) Graph) list"

text \<open>Python truthiness: \<open>None\<close> and the empty dictionary are falsy.\<close>

fun truthy :: "payload \<Rightarrow> bool" where
  "truthy PyNone = False"
| "truthy (PyDict kvs) = (kvs \<noteq> [])"

text \<open>\<open>a or b\<close>\<close>

definition py_or :: "payload \<Rightarrow> payload \<Rightarrow> payload" where
  "py_or a b = (if truthy a then a else b)"

section \<open>arvore\_avl.py\<close>

text \<open>
  \<open>AVLNode\<close>: key, name, data, left, right and the stored \<open>height\<close> field. \<open>ANone\<close> is
  Python's \<open>None\<close> in a child slot. Nodes are owned by exactly one parent, so the
  in-place updates of the source are modelled by rebuilding the node.
\<close>

datatype avl_node = ANone | AVLNode int string payload avl_node avl_node int

text \<open>\<open>AVLTree._height\<close>: the stored field, 0 for \<open>None\<close>.\<close>

fun height_of :: "avl_node \<Rightarrow> int" where
  "height_of ANone = 0"
| "height_of (AVLNode k n d l r h) = h"

text \<open>\<open>AVLTree._update_height\<close>\<close>

fun update_height :: "avl_node \<Rightarrow> error + avl_node" where
  "update_height ANone = Inl AttributeError"
| "update_height (AVLNode k n d l r h) =
     Inr (AVLNode k n d l r (1 + max (height_of l) (height_of r)))"

text \<open>\<open>AVLTree._balance_factor\<close>\<close>

fun balance_factor :: "avl_node \<Rightarrow> error + int" where
  "balance_factor ANone = Inl AttributeError"
| "balance_factor (AVLNode k n d l r h) = Inr (height_of l - height_of r)"

text \<open>\<open>AVLTree._rotate_right\<close>: \<open>x = y.left; T2 = x.right; x.right = y; y.left = T2\<close>,
  then the heights of \<open>y\<close> and \<open>x\<close> are recomputed, in this order.\<close>

fun rotate_right :: "avl_node \<Rightarrow> error + avl_node" where
  "rotate_right (AVLNode yk yn yd (AVLNode xk xn xd xl T2 xh) yr yh) =
     bind_result (update_height (AVLNode yk yn yd T2 yr yh)) (\<lambda>y.
       update_height (AVLNode xk xn xd xl y xh))"
| "rotate_right _ = Inl AttributeError"

text \<open>\<open>AVLTree._rotate_left\<close>\<close>

fun rotate_left :: "avl_node \<Rightarrow> error + avl_node" where
  "rotate_left (AVLNode xk xn xd xl (AVLNode yk yn yd T2 yr yh) xh) =
     bind_result (update_height (AVLNode xk xn xd xl T2 xh)) (\<lambda>x.
       update_height (AVLNode yk yn yd x yr yh))"
| "rotate_left _ = Inl AttributeError"

text \<open>\<open>node.left\<close>, \<open>node.right\<close> and the assignments to them.\<close>

fun left_of :: "avl_node \<Rightarrow> error + avl_node" where
  "left_of ANone = Inl AttributeError"
| "left_of (AVLNode k n d l r h) = Inr l"

fun right_of :: "avl_node \<Rightarrow> error + avl_node" where
  "right_of ANone = Inl AttributeError"
| "right_of (AVLNode k n d l r h) = Inr r"

fun set_left :: "avl_node \<Rightarrow> avl_node \<Rightarrow> error + avl_node" where
  "set_left ANone x = Inl AttributeError"
| "set_left (AVLNode k n d l r h) x = Inr (AVLNode k n d x r h)"

fun set_right :: "avl_node \<Rightarrow> avl_node \<Rightarrow> error + avl_node" where
  "set_right ANone x = Inl AttributeError"
| "set_right (AVLNode k n d l r h) x = Inr (AVLNode k n d l x h)"

text \<open>\<open>AVLTree._rebalance\<close>\<close>

definition rebalance :: "avl_node \<Rightarrow> error + avl_node" where
  "rebalance node0 =
     bind_result (update_height node0) (\<lambda>node.
     bind_result (balance_factor node) (\<lambda>bf.
       if bf > 1 then
         bind_result (left_of node) (\<lambda>l.
         bind_result (balance_factor l) (\<lambda>bl.
           if bl < 0 then
             bind_result (rotate_left l) (\<lambda>l'.
             bind_result (set_left node l') rotate_right)
           else rotate_right node))
       else if bf < -1 then
         bind_result (right_of node) (\<lambda>r.
         bind_result (balance_factor r) (\<lambda>br.
           if br > 0 then
             bind_result (rotate_right r) (\<lambda>r'.
             bind_result (set_right node r') rotate_left)
           else rotate_left node))
       else Inr node))"

text \<open>The payload a fresh node gets when \<open>data is None\<close>: \<open>{'graph': Graph()}\<close>.\<close>

definition default_payload :: payload where
  "default_payload = PyDict [(''graph'', new_Graph False)]"

text \<open>The closure \<open>_insert\<close> of \<open>AVLTree.insert\<close>.\<close>

fun avl_insert :: "avl_node \<Rightarrow> int \<Rightarrow> string \<Rightarrow> payload \<Rightarrow> error + avl_node" where
  "avl_insert ANone key name data =
     Inr (AVLNode key name (if data = PyNone then default_payload else data) ANone ANone 1)"
| "avl_insert (AVLNode k n d l r h) key name data =
     (if key < k then
        bind_result (avl_insert l key name data) (\<lambda>l'. rebalance (AVLNode k n d l' r h))
      else if key > k then
        bind_result (avl_insert r key name data) (\<lambda>r'. rebalance (AVLNode k n d l r' h))
      else Inr (AVLNode k name (py_or data d) l r h))"

text \<open>\<open>AVLTree._min_node\<close>: follow \<open>left\<close> while it is not \<open>None\<close>.\<close>

fun avl_min_node :: "avl_node \<Rightarrow> error + avl_node" where
  "avl_min_node ANone = Inl AttributeError"
| "avl_min_node (AVLNode k n d l r h) =
     (if l = ANone then Inr (AVLNode k n d l r h) else avl_min_node l)"

text \<open>The closure \<open>_remove\<close> of \<open>AVLTree.remove\<close>. In the two-children case the key, name
  and data of the successor are copied into the node, then the successor's key is removed
  from the right subtree.\<close>

fun avl_remove :: "avl_node \<Rightarrow> int \<Rightarrow> error + avl_node" where
  "avl_remove ANone key = Inr ANone"
| "avl_remove (AVLNode k n d l r h) key =
     (if key < k then
        bind_result (avl_remove l key) (\<lambda>l'. rebalance (AVLNode k n d l' r h))
      else if key > k then
        bind_result (avl_remove r key) (\<lambda>r'. rebalance (AVLNode k n d l r' h))
      else if l = ANone then Inr r
      else if r = ANone then Inr l
      else
        (case avl_min_node r of
           Inl e \<Rightarrow> Inl e
         | Inr ANone \<Rightarrow> Inl AttributeError
         | Inr (AVLNode sk sn sd sl sr sh) \<Rightarrow>
             bind_result (avl_remove r sk) (\<lambda>r'. rebalance (AVLNode sk sn sd l r' h))))"

text \<open>\<open>AVLTree.search\<close>\<close>

fun avl_search :: "avl_node \<Rightarrow> int \<Rightarrow> avl_node" where
  "avl_search ANone key = ANone"
| "avl_search (AVLNode k n d l r h) key =
     (if key = k then AVLNode k n d l r h
      else if key < k then avl_search l key else avl_search r key)"

text \<open>\<open>AVLTree.inorder\<close>, collecting the keys the visitor sees.\<close>

fun avl_inorder :: "avl_node \<Rightarrow> int list" where
  "avl_inorder ANone = []"
| "avl_inorder (AVLNode k n d l r h) = avl_inorder l @ [k] @ avl_inorder r"

text \<open>An operation on a tree, and a run of operations from a given root; the run stops at
  the first exception.\<close>

datatype tree_op = Insert int string payload | Remove int

fun avl_apply :: "avl_node \<Rightarrow> tree_op \<Rightarrow> error + avl_node" where
  "avl_apply t (Insert key name data) = avl_insert t key name data"
| "avl_apply t (Remove key) = avl_remove t key"

fun avl_run :: "avl_node \<Rightarrow> tree_op list \<Rightarrow> error + avl_node" where
  "avl_run t [] = Inr t"
| "avl_run t (x # xs) = bind_result (avl_apply t x) (\<lambda>t'. avl_run t' xs)"

subsection \<open>The invariants of the specification\<close>

text \<open>The height of the specification: \<open>height(empty) = 0\<close>,
  \<open>height(node) = 1 + max(height(left), height(right))\<close>.\<close>

fun avl_height :: "avl_node \<Rightarrow> int" where
  "avl_height ANone = 0"
| "avl_height (AVLNode k n d l r h) = 1 + max (avl_height l) (avl_height r)"

text \<open>The AVL balance invariant at every node.\<close>

fun avl_balanced :: "avl_node \<Rightarrow> bool" where
  "avl_balanced ANone = True"
| "avl_balanced (AVLNode k n d l r h) =
     (\<bar>avl_height l - avl_height r\<bar> \<le> 1 \<and> avl_balanced l \<and> avl_balanced r)"

text \<open>Every stored \<open>height\<close> field is the height of its subtree.\<close>

fun heights_ok :: "avl_node \<Rightarrow> bool" where
  "heights_ok ANone = True"
| "heights_ok (AVLNode k n d l r h) =
     (h = 1 + max (avl_height l) (avl_height r) \<and> heights_ok l \<and> heights_ok r)"

fun avl_keys :: "avl_node \<Rightarrow> int set" where
  "avl_keys ANone = {}"
| "avl_keys (AVLNode k n d l r h) = insert k (avl_keys l \<union> avl_keys r)"

text \<open>The BST order invariant, node by node.\<close>

fun avl_ordered :: "avl_node \<Rightarrow> bool" where
  "avl_ordered ANone = True"
| "avl_ordered (AVLNode k n d l r h) =
     ((\<forall>x \<in> avl_keys l. x < k) \<and> (\<forall>x \<in> avl_keys r. k < x) \<and> avl_ordered l \<and> avl_ordered r)"

text \<open>An AVL tree as the operations keep it: stored heights right, every node balanced.\<close>

definition avl_inv :: "avl_node \<Rightarrow> bool" where
  "avl_inv t = (heights_ok t \<and> avl_balanced t)"

section \<open>arvore\_binaria.py\<close>

text \<open>\<open>BSTNode\<close>: key, name, data, left, right; no height field. The recursion of the
  closures is modelled without Python's limit on the depth of the call stack.\<close>

datatype bst_node = BNone | BSTNode int string payload bst_node bst_node

text \<open>The closure \<open>_insert\<close> of \<open>BinarySearchTree.insert\<close>: a new node takes \<open>data\<close> as it
  is given, and an existing key has both \<open>name\<close> and \<open>data\<close> assigned.\<close>

fun bst_insert :: "bst_node \<Rightarrow> int \<Rightarrow> string \<Rightarrow> payload \<Rightarrow> bst_node" where
  "bst_insert BNone key name data = BSTNode key name data BNone BNone"
| "bst_insert (BSTNode k n d l r) key name data =
     (if key < k then BSTNode k n d (bst_insert l key name data) r
      else if key > k then BSTNode k n d l (bst_insert r key name data)
      else BSTNode k name data l r)"

text \<open>\<open>BinarySearchTree._min_node\<close>\<close>

fun bst_min_node :: "bst_node \<Rightarrow> error + bst_node" where
  "bst_min_node BNone = Inl AttributeError"
| "bst_min_node (BSTNode k n d l r) =
     (if l = BNone then Inr (BSTNode k n d l r) else bst_min_node l)"

text \<open>The closure \<open>_remove\<close> of \<open>BinarySearchTree.remove\<close>.\<close>

fun bst_remove :: "bst_node \<Rightarrow> int \<Rightarrow> error + bst_node" where
  "bst_remove BNone key = Inr BNone"
| "bst_remove (BSTNode k n d l r) key =
     (if key < k then
        bind_result (bst_remove l key) (\<lambda>l'. Inr (BSTNode k n d l' r))
      else if key > k then
        bind_result (bst_remove r key) (\<lambda>r'. Inr (BSTNode k n d l r'))
      else if l = BNone then Inr r
      else if r = BNone then Inr l
      else
        (case bst_min_node r of
           Inl e \<Rightarrow> Inl e
         | Inr BNone \<Rightarrow> Inl AttributeError
         | Inr (BSTNode sk sn sd sl sr) \<Rightarrow>
             bind_result (bst_remove r sk) (\<lambda>r'. Inr (BSTNode sk sn sd l r'))))"

text \<open>\<open>BinarySearchTree.inorder\<close>, collecting the keys the visitor sees.\<close>

fun bst_inorder :: "bst_node \<Rightarrow> int list" where
  "bst_inorder BNone = []"
| "bst_inorder (BSTNode k n d l r) = bst_inorder l @ [k] @ bst_inorder r"

text \<open>\<open>BinarySearchTree.search\<close>; \<open>BNone\<close> is the \<open>None\<close> it returns for a missing key.\<close>

fun bst_search :: "bst_node \<Rightarrow> int \<Rightarrow> bst_node" where
  "bst_search BNone key = BNone"
| "bst_search (BSTNode k n d l r) key =
     (if key = k then BSTNode k n d l r
      else if key < k then bst_search l key else bst_search r key)"

text \<open>\<open>node.data\<close>\<close>

fun bst_data :: "bst_node \<Rightarrow> error + payload" where
  "bst_data BNone = Inl AttributeError"
| "bst_data (BSTNode k n d l r) = Inr d"

fun bst_apply :: "bst_node \<Rightarrow> tree_op \<Rightarrow> error + bst_node" where
  "bst_apply t (Insert key name data) = Inr (bst_insert t key name data)"
| "bst_apply t (Remove key) = bst_remove t key"

fun bst_run :: "bst_node \<Rightarrow> tree_op list \<Rightarrow> error + bst_node" where
  "bst_run t [] = Inr t"
| "bst_run t (x # xs) = bind_result (bst_apply t x) (\<lambda>t'. bst_run t' xs)"

fun bst_keys :: "bst_node \<Rightarrow> int set" where
  "bst_keys BNone = {}"
| "bst_keys (BSTNode k n d l r) = insert k (bst_keys l \<union> bst_keys r)"

text \<open>The BST order invariant, node by node.\<close>

fun bst_ordered :: "bst_node \<Rightarrow> bool" where
  "bst_ordered BNone = True"
| "bst_ordered (BSTNode k n d l r) =
     ((\<forall>x \<in> bst_keys l. x < k) \<and> (\<forall>x \<in> bst_keys r. k < x) \<and> bst_ordered l \<and> bst_ordered r)"

fun bst_height :: "bst_node \<Rightarrow> int" where
  "bst_height BNone = 0"
| "bst_height (BSTNode k n d l r) = 1 + max (bst_height l) (bst_height r)"

subsection \<open>Updates in place, as the specification words them\<close>

text \<open>
  The update of an existing key as the specification describes it for the AVL tree: every
  node keeps its place, its key, its children and its height; the node that holds \<open>key\<close>
  gets the new label, and the new payload if that is non-empty (its previous payload
  otherwise).
\<close>

fun avl_relabel :: "avl_node \<Rightarrow> int \<Rightarrow> string \<Rightarrow> payload \<Rightarrow> avl_node" where
  "avl_relabel ANone key name data = ANone"
| "avl_relabel (AVLNode k n d l r h) key name data =
     AVLNode k (if k = key then name else n)
       (if k = key then (if truthy data then data else d) else d)
       (avl_relabel l key name data) (avl_relabel r key name data) h"

text \<open>The same contract read for the BST (what the specification claims), and the update
  that assigns label and payload without condition.\<close>

fun bst_relabel_keep :: "bst_node \<Rightarrow> int \<Rightarrow> string \<Rightarrow> payload \<Rightarrow> bst_node" where
  "bst_relabel_keep BNone key name data = BNone"
| "bst_relabel_keep (BSTNode k n d l r) key name data =
     BSTNode k (if k = key then name else n)
       (if k = key then (if truthy data then data else d) else d)
       (bst_relabel_keep l key name data) (bst_relabel_keep r key name data)"

fun bst_relabel :: "bst_node \<Rightarrow> int \<Rightarrow> string \<Rightarrow> payload \<Rightarrow> bst_node" where
  "bst_relabel BNone key name data = BNone"
| "bst_relabel (BSTNode k n d l r) key name data =
     BSTNode k (if k = key then name else n) (if k = key then data else d)
       (bst_relabel l key name data) (bst_relabel r key name data)"

subsection \<open>The DSW transform\<close>

text \<open>
  \<open>_tree_to_vine\<close>. The loop keeps \<open>tail\<close> (the end of the finished right-only chain that
  starts at \<open>pseudo_root\<close>) and \<open>rest = tail.right\<close>; it never touches the chain before
  \<open>tail\<close> again. \<open>vine_from rest\<close> is what hangs at \<open>tail.right\<close> when the loop ends:
  \<^item> \<open>rest is None\<close>: the loop ends;
  \<^item> \<open>rest.left is None\<close>: \<open>rest\<close> joins the chain and the loop goes on with \<open>rest.right\<close>;
  \<^item> otherwise a right rotation at \<open>rest\<close>, and the loop goes on with the old \<open>rest.left\<close>.
\<close>

fun vine_measure :: "bst_node \<Rightarrow> nat" where
  "vine_measure BNone = 0"
| "vine_measure (BSTNode k n d l r) = 1 + 2 * size l + vine_measure r"

function vine_from :: "bst_node \<Rightarrow> bst_node" where
  "vine_from BNone = BNone"
| "vine_from (BSTNode k n d BNone r) = BSTNode k n d BNone (vine_from r)"
| "vine_from (BSTNode k n d (BSTNode lk lnm ld ll lr) r) =
     vine_from (BSTNode lk lnm ld ll (BSTNode k n d lr r))"
  by pat_completeness auto
termination
  by (relation "measure vine_measure") auto

definition tree_to_vine :: "bst_node \<Rightarrow> bst_node" where
  "tree_to_vine rt = vine_from rt"

text \<open>
  \<open>_compress(count)\<close>. \<open>compress_from count t\<close> is what hangs at \<open>scanner.right\<close> after the
  remaining \<open>count\<close> iterations, \<open>t\<close> being \<open>scanner.right\<close> before them. An iteration
  \<^item> stops the loop when \<open>child = scanner.right\<close> is \<open>None\<close>;
  \<^item> raises \<open>AttributeError\<close> at \<open>next_child.left\<close> when \<open>next_child = child.right\<close> is
    \<open>None\<close> (the source does not guard this access);
  \<^item> otherwise rotates left: \<open>next_child\<close> takes the place of \<open>child\<close>, \<open>child\<close> becomes its
    left child and takes the old \<open>next_child.left\<close> as right child; \<open>scanner\<close> moves to
    \<open>next_child\<close>.
\<close>

fun compress_from :: "nat \<Rightarrow> bst_node \<Rightarrow> error + bst_node" where
  "compress_from 0 t = Inr t"
| "compress_from (Suc c) BNone = Inr BNone"
| "compress_from (Suc c) (BSTNode ck cn cd cl BNone) = Inl AttributeError"
| "compress_from (Suc c) (BSTNode ck cn cd cl (BSTNode nk nn nd nl nr)) =
     bind_result (compress_from c nr) (\<lambda>rest.
       Inr (BSTNode nk nn nd (BSTNode ck cn cd cl nl) rest))"

text \<open>\<open>range(count)\<close> is empty for a count that is not positive.\<close>

definition compress :: "int \<Rightarrow> bst_node \<Rightarrow> error + bst_node" where
  "compress count rt = compress_from (nat count) rt"

text \<open>The closure \<open>_count\<close> of \<open>dsw_balance\<close>: the number of nodes.\<close>

fun count_nodes :: "bst_node \<Rightarrow> int" where
  "count_nodes BNone = 0"
| "count_nodes (BSTNode k n d l r) = count_nodes l + 1 + count_nodes r"

text \<open>\<open>while m <= n: m = m << 1\<close>. The loop does not end from \<open>m \<le> 0\<close>, so it is a
  partial function; \<open>None\<close> stands for not returning.\<close>

partial_function (option) grow_m :: "int \<Rightarrow> int \<Rightarrow> int option" where
  "grow_m m n = (if m \<le> n then grow_m (m * 2) n else Some m)"

declare grow_m.simps [code]

text \<open>\<open>while m > 1: m = m >> 1; self._compress(m)\<close>\<close>

function compress_passes :: "int \<Rightarrow> bst_node \<Rightarrow> error + bst_node" where
  "compress_passes m rt =
     (if m > 1 then
        (case compress (m div 2) rt of
           Inl e \<Rightarrow> Inl e
         | Inr rt' \<Rightarrow> compress_passes (m div 2) rt')
      else Inr rt)"
  by pat_completeness auto
termination
  by (relation "measure (\<lambda>(m, rt). nat m)") auto

text \<open>\<open>dsw_balance\<close>: the outer \<open>option\<close> is \<open>None\<close> when the call does not return, the
  inner sum is the exception or the new root.\<close>

definition dsw_balance :: "bst_node \<Rightarrow> (error + bst_node) option" where
  "dsw_balance rt =
     (let n = count_nodes rt in
      if n \<le> 1 then Some (Inr rt)
      else
        (let vine = tree_to_vine rt in
         case grow_m 1 n of
           None \<Rightarrow> None
         | Some m1 \<Rightarrow>
             (let m = m1 div 2 - 1 in
              Some (bind_result (compress (n - m) vine) (compress_passes m)))))"

subsection \<open>Shapes met by the DSW transform\<close>

text \<open>The number of nodes on the right spine, and the trees that are vines (no left child
  anywhere).\<close>

fun rlen :: "bst_node \<Rightarrow> nat" where
  "rlen BNone = 0"
| "rlen (BSTNode k n d l r) = Suc (rlen r)"

fun is_vine :: "bst_node \<Rightarrow> bool" where
  "is_vine BNone = True"
| "is_vine (BSTNode k n d l r) = (l = BNone \<and> is_vine r)"

section \<open>grafo.py\<close>

text \<open>
  Reading \<open>self.adj[u]\<close> on the \<open>defaultdict(list)\<close>: the list stored for \<open>u\<close>, and the
  empty list for a missing key.
\<close>

fun adj_get :: "('v \<times> 'e list) list \<Rightarrow> 'v \<Rightarrow> 'e list" where
  "adj_get [] u = []"
| "adj_get ((k, es) # rest) u = (if k = u then es else adj_get rest u)"

text \<open>\<open>v in self.adj\<close>\<close>

definition has_vertex :: "('v, 'w) Graph \<Rightarrow> 'v \<Rightarrow> bool" where
  "has_vertex g v = (v \<in> set (map fst (adj g)))"

text \<open>\<open>self.adj[u].append(e)\<close>: the entry of \<open>u\<close> is extended where it stands; a missing
  key is created by the \<open>defaultdict\<close> at the end of the dictionary, with \<open>[e]\<close>.\<close>

fun adj_append :: "('v \<times> 'e list) list \<Rightarrow> 'v \<Rightarrow> 'e \<Rightarrow> ('v \<times> 'e list) list" where
  "adj_append [] u e = [(u, [e])]"
| "adj_append ((k, es) # rest) u e =
     (if k = u then (k, es @ [e]) # rest else (k, es) # adj_append rest u e)"

text \<open>\<open>Graph.add_vertex\<close>\<close>

definition add_vertex :: "('v, 'w) Graph \<Rightarrow> 'v \<Rightarrow> ('v, 'w) Graph" where
  "add_vertex g v = (if has_vertex g v then g else g\<lparr>adj := adj g @ [(v, [])]\<rparr>)"

text \<open>\<open>Graph.add_edge\<close>\<close>

definition add_edge :: "('v, 'w) Graph \<Rightarrow> 'v \<Rightarrow> 'v \<Rightarrow> 'w \<Rightarrow> ('v, 'w) Graph" where
  "add_edge g u v weight =
     (let g1 = g\<lparr>adj := adj_append (adj g) u (v, weight)\<rparr> in
      if \<not> directed g1 then g1\<lparr>adj := adj_append (adj g1) v (u, weight)\<rparr> else g1)"

text \<open>\<open>Graph.vertices\<close>: \<open>list(self.adj.keys())\<close>\<close>

definition vertices :: "('v, 'w) Graph \<Rightarrow> 'v list" where
  "vertices g = map fst (adj g)"

text \<open>The weighted edges of the graph: \<open>(u, v, w)\<close> for every key \<open>u\<close> of \<open>adj\<close> and every
  \<open>(v, w)\<close> in \<open>adj[u]\<close>.\<close>

definition edges :: "('v, 'w) Graph \<Rightarrow> ('v \<times> 'v \<times> 'w) list" where
  "edges g = concat (map (\<lambda>u. map (\<lambda>(v, w). (u, v, w)) (adj_get (adj g) u)) (vertices g))"

subsection \<open>Dijkstra\<close>

text \<open>
  Distances and weights are Python floats. They are values of a type \<open>'w\<close> with the
  comparison of the floats (a linear order; \<open>NaN\<close> is no value of it), \<open>float('inf')\<close> as
  its greatest value \<open>top\<close>, the float \<open>0\<close>, and the addition \<open>+\<close> of the floats, about
  which the definitions assume nothing: it may round and it may overflow to \<open>top\<close>.
  What the proofs need of it is a hypothesis of the theorems.
\<close>

text \<open>\<open>dist.get(v, float('inf'))\<close>\<close>

definition dist_get :: "('v \<rightharpoonup> 'w::order_top) \<Rightarrow> 'v \<Rightarrow> 'w" where
  "dist_get dists v = (case dists v of None \<Rightarrow> top | Some d \<Rightarrow> d)"

text \<open>
  The state of the loop: \<open>dist\<close>, \<open>prev\<close> (a stored \<open>None\<close> is \<open>Some None\<close>) and the heap.
\<close>

type_synonym ('v, 'w) dstate = "('v \<rightharpoonup> 'w) \<times> ('v \<rightharpoonup> 'v option) \<times> ('w \<times> 'v) list"

text \<open>
  Python's \<open><\<close> on two heap items \<open>(d1, v1)\<close> and \<open>(d2, v2)\<close>: the distances decide when
  they differ; equal tuples are not less; otherwise the vertex ids are compared with
  their own \<open><\<close>, here the parameter \<open>vlt\<close>, which raises \<open>TypeError\<close> for ids that Python
  cannot order.
\<close>

fun item_lt :: "('v \<Rightarrow> 'v \<Rightarrow> error + bool) \<Rightarrow> 'w::linorder \<times> 'v \<Rightarrow> 'w \<times> 'v \<Rightarrow> error + bool" where
  "item_lt vlt (d1, v1) (d2, v2) =
     (if d1 \<noteq> d2 then Inr (d1 < d2) else if v1 = v2 then Inr False else vlt v1 v2)"

text \<open>
  The heap of \<open>heapq\<close> (the standard library, not part of the repository) is modelled by
  its contract and not by the layout of its array. The heap is the list of its items;
  \<open>heappush\<close> adds an item; \<open>heappop\<close> finds the least item by comparing the items one
  after the other with the least so far, returns it and takes one copy of it out. A
  comparison that raises makes \<open>heappop\<close> raise: \<open>heapq\<close> may meet the same two items
  in another of its calls.
\<close>

fun least :: "('v \<Rightarrow> 'v \<Rightarrow> error + bool) \<Rightarrow> 'w::linorder \<times> 'v \<Rightarrow> ('w \<times> 'v) list
    \<Rightarrow> error + 'w \<times> 'v" where
  "least vlt m [] = Inr m"
| "least vlt m (y # ys) =
     bind_result (item_lt vlt y m) (\<lambda>b. least vlt (if b then y else m) ys)"

fun heappop :: "('v \<Rightarrow> 'v \<Rightarrow> error + bool) \<Rightarrow> ('w::linorder \<times> 'v) list
    \<Rightarrow> error + ('w \<times> 'v) \<times> ('w \<times> 'v) list" where
  "heappop vlt [] = Inl IndexError"
| "heappop vlt (x # xs) =
     bind_result (least vlt x xs) (\<lambda>m. Inr (m, remove1 m (x # xs)))"

definition heappush :: "('w \<times> 'v) list \<Rightarrow> 'w \<times> 'v \<Rightarrow> ('w \<times> 'v) list" where
  "heappush heap item = heap @ [item]"

text \<open>One iteration of \<open>for v, w in self.adj[u]\<close>. \<open>dist[u]\<close> raises \<open>KeyError\<close> for a missing
  key. The last \<open>if v not in dist\<close> of the source comes after \<open>dist[v] = alt\<close>.\<close>

fun relax_edge :: "'v \<Rightarrow> ('v, 'w::{linorder, order_top, plus}) dstate \<Rightarrow> 'v \<times> 'w
    \<Rightarrow> error + ('v, 'w) dstate" where
  "relax_edge u (dists, prev, heap) (v, w) =
     (case dists u of
        None \<Rightarrow> Inl KeyError
      | Some du \<Rightarrow>
          (let alt = du + w in
           if alt < dist_get dists v then
             (let dist1 = dists(v \<mapsto> alt);
                  prev1 = prev(v \<mapsto> Some u);
                  heap1 = heappush heap (alt, v);
                  dist2 = (if v \<notin> dom dist1 then dist1(v \<mapsto> alt) else dist1)
              in Inr (dist2, prev1, heap1))
           else Inr (dists, prev, heap)))"

fun relax :: "'v \<Rightarrow> ('v, 'w::{linorder, order_top, plus}) dstate \<Rightarrow> ('v \<times> 'w) list
    \<Rightarrow> error + ('v, 'w) dstate" where
  "relax u st [] = Inr st"
| "relax u st (e # es) = bind_result (relax_edge u st e) (\<lambda>st'. relax u st' es)"

text \<open>
  \<open>while heap\<close>. The loop is a partial function: \<open>None\<close> stands for not returning, \<open>Some\<close>
  holds the exception or the returned \<open>(dist, prev)\<close>. \<open>self.adj[u]\<close> on the
  \<open>defaultdict\<close> reads as the empty list for a missing key \<open>u\<close>; that it also stores the key
  then has no effect on what the loop reads later, and is left out of the state.
\<close>

partial_function (option) dijkstra_loop ::
  "('v \<Rightarrow> 'v \<Rightarrow> error + bool) \<Rightarrow> ('v \<times> ('v \<times> 'w) list) list
     \<Rightarrow> ('v, 'w::{linorder, order_top, plus}) dstate
     \<Rightarrow> (error + ('v \<rightharpoonup> 'w) \<times> ('v \<rightharpoonup> 'v option)) option" where
  "dijkstra_loop vlt a st =
     (case st of (dists, prev, heap) \<Rightarrow>
        if heap = [] then Some (Inr (dists, prev))
        else
          (case heappop vlt heap of
             Inl e \<Rightarrow> Some (Inl e)
           | Inr ((d, u), heap') \<Rightarrow>
               (case dists u of
                  None \<Rightarrow> Some (Inl KeyError)
                | Some du \<Rightarrow>
                    if d > du then dijkstra_loop vlt a (dists, prev, heap')
                    else
                      (case relax u (dists, prev, heap') (adj_get a u) of
                         Inl e \<Rightarrow> Some (Inl e)
                       | Inr st' \<Rightarrow> dijkstra_loop vlt a st'))))"

declare dijkstra_loop.simps [code]

text \<open>\<open>Graph.dijkstra\<close>, with the \<open><\<close> of the vertex ids as the parameter \<open>vlt\<close>.\<close>

definition dijkstra ::
  "('v \<Rightarrow> 'v \<Rightarrow> error + bool) \<Rightarrow> ('v, 'w::{linorder, order_top, plus, zero}) Graph \<Rightarrow> 'v
     \<Rightarrow> (error + ('v \<rightharpoonup> 'w) \<times> ('v \<rightharpoonup> 'v option)) option" where
  "dijkstra vlt g source =
     (let dists = map_of (map (\<lambda>v. (v, top)) (vertices g));
          prev = map_of (map (\<lambda>v. (v, None)) (vertices g))
      in if \<not> has_vertex g source then Some (Inr (dists, prev))
         else dijkstra_loop vlt (adj g) (dists(source \<mapsto> 0), prev, [(0, source)]))"

subsection \<open>Values for examples\<close>

text \<open>Numbers for the examples: the reals with an infinity on top, and their sum. On the
  numbers of the examples (0, 1, 2, 3, 10) this is what the floats compute.\<close>

datatype dval = Fin real | Infinity

instantiation dval :: "{linorder, order_top, plus, zero}"
begin

fun less_eq_dval :: "dval \<Rightarrow> dval \<Rightarrow> bool" where
  "less_eq_dval (Fin x) (Fin y) = (x \<le> y)"
| "less_eq_dval a Infinity = True"
| "less_eq_dval Infinity (Fin y) = False"

definition less_dval :: "dval \<Rightarrow> dval \<Rightarrow> bool" where
  "less_dval a b = (a \<le> b \<and> \<not> b \<le> a)"

definition top_dval :: dval where
  "top_dval = Infinity"

definition zero_dval :: dval where
  "zero_dval = Fin 0"

fun plus_dval :: "dval \<Rightarrow> dval \<Rightarrow> dval" where
  "plus_dval (Fin x) (Fin y) = Fin (x + y)"
| "plus_dval a Infinity = Infinity"
| "plus_dval Infinity (Fin y) = Infinity"

instance
proof
  fix x y z :: dval
  show "(x < y) = (x \<le> y \<and> \<not> y \<le> x)" by (simp add: less_dval_def)
  show "x \<le> x" by (cases x) auto
  show "x \<le> y \<Longrightarrow> y \<le> z \<Longrightarrow> x \<le> z" by (cases x; cases y; cases z) auto
  show "x \<le> y \<Longrightarrow> y \<le> x \<Longrightarrow> x = y" by (cases x; cases y) auto
  show "x \<le> y \<or> y \<le> x" by (cases x; cases y) auto
  show "x \<le> top" by (simp add: top_dval_def)
qed

end

text \<open>Vertex ids for the examples: Python strings and integers. \<open><\<close> orders two strings
  and two integers, and raises \<open>TypeError\<close> between a string and an integer.\<close>

datatype pyid = PStr string | PInt int

fun py_lt :: "pyid \<Rightarrow> pyid \<Rightarrow> error + bool" where
  "py_lt (PStr a) (PStr b) = Inr (a < b)"
| "py_lt (PInt i) (PInt j) = Inr (i < j)"
| "py_lt (PStr a) (PInt j) = Inl TypeError"
| "py_lt (PInt i) (PStr b) = Inl TypeError"

subsection \<open>Paths, and the loop invariants of Dijkstra\<close>

text \<open>\<open>walk a s v x\<close>: some path from \<open>s\<close> to \<open>v\<close> has the length \<open>x\<close>, the weights added
  in the order of the path, as the loop adds them. A vertex is reachable when it has a
  path.\<close>

inductive walk :: "('v \<times> ('v \<times> 'w::{plus, zero}) list) list \<Rightarrow> 'v \<Rightarrow> 'v \<Rightarrow> 'w \<Rightarrow> bool"
  for a :: "('v \<times> ('v \<times> 'w) list) list" and s :: 'v where
  walk_start: "walk a s s 0"
| walk_step: "walk a s u x \<Longrightarrow> (v, w) \<in> set (adj_get a u) \<Longrightarrow> walk a s v (x + w)"

definition reachable :: "('v, 'w::{plus, zero}) Graph \<Rightarrow> 'v \<Rightarrow> 'v \<Rightarrow> bool" where
  "reachable g s v = (\<exists>x. walk (adj g) s v x)"

text \<open>Every vertex id of the graph: the keys of \<open>adj\<close> and the targets of the edges.\<close>

definition ids :: "('v, 'w) Graph \<Rightarrow> 'v set" where
  "ids g = set (vertices g) \<union> (\<lambda>(u, v, w). v) ` set (edges g)"

text \<open>All edges out of \<open>y\<close> are relaxed for the distance \<open>z\<close> of \<open>y\<close>.\<close>

definition relaxed ::
  "('v \<times> ('v \<times> 'w) list) list \<Rightarrow> ('v \<rightharpoonup> 'w::{linorder, order_top, plus}) \<Rightarrow> 'v \<Rightarrow> 'w \<Rightarrow> bool" where
  "relaxed a dists y z = (\<forall>(v, w) \<in> set (adj_get a y). dist_get dists v \<le> z + w)"

text \<open>A vertex is settled when its distance is below infinity and no heap item carries
  it with that distance.\<close>

definition settled :: "('v, 'w::order_top) dstate \<Rightarrow> 'v \<Rightarrow> bool" where
  "settled st p = (case st of (dists, prev, heap) \<Rightarrow>
     \<exists>y. dists p = Some y \<and> y < top \<and> (y, p) \<notin> set heap)"

text \<open>What holds of \<open>dist\<close> and the heap in both loops; \<open>K\<close> are the keys of \<open>adj\<close>, \<open>V\<close> all
  vertex ids.\<close>

definition heap_ok ::
  "('v \<times> ('v \<times> 'w) list) list \<Rightarrow> 'v set \<Rightarrow> 'v set \<Rightarrow> 'v
     \<Rightarrow> ('v, 'w::{linorder, order_top, plus, zero}) dstate \<Rightarrow> bool" where
  "heap_ok a K V s st = (case st of (dists, prev, heap) \<Rightarrow>
     K \<subseteq> dom dists \<and> dom dists \<subseteq> V \<and> distinct heap
     \<and> (\<forall>(d, v) \<in> set heap. d < top \<and> (\<exists>y. dists v = Some y \<and> y \<le> d))
     \<and> (\<forall>v d. dists v = Some d \<longrightarrow> 0 \<le> d)
     \<and> dists s = Some 0
     \<and> (\<forall>v d. dists v = Some d \<and> d < top \<longrightarrow> walk a s v d))"

text \<open>The invariant of \<open>while heap\<close>: a vertex with a distance below infinity is on the
  heap with that distance or has all its edges relaxed, and a settled vertex is no
  farther than any heap item.\<close>

definition dj_inv ::
  "('v \<times> ('v \<times> 'w) list) list \<Rightarrow> 'v set \<Rightarrow> 'v set \<Rightarrow> 'v
     \<Rightarrow> ('v, 'w::{linorder, order_top, plus, zero}) dstate \<Rightarrow> bool" where
  "dj_inv a K V s st = (case st of (dists, prev, heap) \<Rightarrow>
     heap_ok a K V s st
     \<and> (\<forall>y z. dists y = Some z \<and> z < top \<longrightarrow> (z, y) \<in> set heap \<or> relaxed a dists y z)
     \<and> (\<forall>p y. dists p = Some y \<and> y < top \<and> (y, p) \<notin> set heap
           \<longrightarrow> (\<forall>(d, v) \<in> set heap. y \<le> d)))"

text \<open>The invariant of \<open>for v, w in self.adj[u]\<close>, with \<open>x\<close> the distance of the popped \<open>u\<close>
  and \<open>es\<close> the edges still to come.\<close>

definition rx_inv ::
  "('v \<times> ('v \<times> 'w) list) list \<Rightarrow> 'v set \<Rightarrow> 'v set \<Rightarrow> 'v \<Rightarrow> 'v \<Rightarrow> 'w \<Rightarrow> ('v \<times> 'w) list
     \<Rightarrow> ('v, 'w::{linorder, order_top, plus, zero}) dstate \<Rightarrow> bool" where
  "rx_inv a K V s u x es st = (case st of (dists, prev, heap) \<Rightarrow>
     heap_ok a K V s st
     \<and> dists u = Some x \<and> x < top \<and> (x, u) \<notin> set heap
     \<and> (\<forall>y z. y \<noteq> u \<and> dists y = Some z \<and> z < top
           \<longrightarrow> (z, y) \<in> set heap \<or> relaxed a dists y z)
     \<and> (\<forall>(v, w) \<in> set (adj_get a u). (v, w) \<in> set es \<or> dist_get dists v \<le> x + w)
     \<and> (\<forall>(d, v) \<in> set heap. x \<le> d)
     \<and> (\<forall>p y. dists p = Some y \<and> y < top \<and> (y, p) \<notin> set heap \<longrightarrow> y \<le> x))"

text \<open>What the theorems ask of the arithmetic, the weights and the vertex ids: the sum of
  two numbers that are not negative is not below the first, and \<open>0\<close> is below infinity
  (both hold of IEEE floats, whatever the rounding); weights are not negative; every
  vertex the loop can meet is in the finite set \<open>V\<close>; and \<open><\<close> between two ids of \<open>V\<close>
  raises nothing.\<close>

definition graph_ok ::
  "('v \<Rightarrow> 'v \<Rightarrow> error + bool) \<Rightarrow> ('v \<times> ('v \<times> 'w::{linorder, order_top, plus, zero}) list) list
     \<Rightarrow> 'v set \<Rightarrow> bool" where
  "graph_ok vlt a V =
     (finite V \<and> (0::'w) < top
      \<and> (\<forall>x w::'w. 0 \<le> x \<and> 0 \<le> w \<longrightarrow> x \<le> x + w)
      \<and> (\<forall>u. \<forall>(v, w) \<in> set (adj_get a u). 0 \<le> w \<and> v \<in> V)
      \<and> (\<forall>u \<in> V. \<forall>v \<in> V. \<exists>b. vlt u v = Inr b))"

section \<open>Proofs: the AVL tree and the BST\<close>

lemma bind_result_Inr [simp]: "bind_result (Inr x) f = f x"
  by (simp add: bind_result_def)

lemma bind_result_Inl [simp]: "bind_result (Inl e) f = Inl e"
  by (simp add: bind_result_def)

lemma height_of_eq: "heights_ok t \<Longrightarrow> height_of t = avl_height t"
  by (cases t) auto

lemma avl_height_nonneg: "0 \<le> avl_height t"
  by (induction t) auto

lemma avl_height_pos [simp]: "0 < avl_height (AVLNode k n d l r h)"
  using avl_height_nonneg[of l] by simp

lemma rebalance_inorder:
  "rebalance (AVLNode k n d l r h) = Inr t \<Longrightarrow> avl_inorder t = avl_inorder l @ [k] @ avl_inorder r"
  apply (simp add: rebalance_def split: if_splits)
  subgoal
    apply (cases l; simp split: if_splits)
    subgoal for lk ln ld ll lr lh
      by (cases lr; auto)
    subgoal by auto
    done
  subgoal
    apply (cases r; simp split: if_splits)
    subgoal for lk ln ld ll lr lh
      by (cases ll; auto)
    subgoal by auto
    done
  subgoal by auto
  done

lemma rebalance_id:
  "heights_ok l \<Longrightarrow> heights_ok r \<Longrightarrow> \<bar>avl_height l - avl_height r\<bar> \<le> 1 \<Longrightarrow>
   rebalance (AVLNode k n d l r h) = Inr (AVLNode k n d l r (1 + max (avl_height l) (avl_height r)))"
  by (auto simp: rebalance_def height_of_eq)

lemma rebalance_left_heavy:
  assumes "heights_ok l" "heights_ok r" "avl_balanced l" "avl_balanced r"
    and "avl_height l = avl_height r + 2"
  shows "\<exists>t. rebalance (AVLNode k n d l r h) = Inr t \<and> heights_ok t \<and> avl_balanced t
     \<and> (avl_height t = avl_height l \<or> avl_height t = avl_height l + 1)"
proof (cases l)
  case ANone
  with assms avl_height_nonneg[of r] show ?thesis by simp
next
  case (AVLNode lk ln ld ll lr lh)
  show ?thesis
  proof (cases "avl_height ll < avl_height lr")
    case True
    then obtain ck cn cd cl cr ch where lr: "lr = AVLNode ck cn cd cl cr ch"
      using avl_height_nonneg[of ll] by (cases lr) auto
    with assms AVLNode True show ?thesis
      by (auto simp: rebalance_def height_of_eq max_def split: if_splits)
  next
    case False
    with assms AVLNode show ?thesis
      by (auto simp: rebalance_def height_of_eq max_def split: if_splits)
  qed
qed

lemma rebalance_right_heavy:
  assumes "heights_ok l" "heights_ok r" "avl_balanced l" "avl_balanced r"
    and "avl_height r = avl_height l + 2"
  shows "\<exists>t. rebalance (AVLNode k n d l r h) = Inr t \<and> heights_ok t \<and> avl_balanced t
     \<and> (avl_height t = avl_height r \<or> avl_height t = avl_height r + 1)"
proof (cases r)
  case ANone
  with assms avl_height_nonneg[of l] show ?thesis by simp
next
  case (AVLNode rk rn rd rl rr rh)
  show ?thesis
  proof (cases "avl_height rl > avl_height rr")
    case True
    then obtain ck cn cd cl cr ch where rl: "rl = AVLNode ck cn cd cl cr ch"
      using avl_height_nonneg[of rr] by (cases rl) auto
    with assms AVLNode True show ?thesis
      by (auto simp: rebalance_def height_of_eq max_def split: if_splits)
  next
    case False
    with assms AVLNode show ?thesis
      by (auto simp: rebalance_def height_of_eq max_def split: if_splits)
  qed
qed

lemma rebalance_inv:
  assumes "avl_inv l" "avl_inv r" "\<bar>avl_height l - avl_height r\<bar> \<le> 2"
  shows "\<exists>t. rebalance (AVLNode k n d l r h) = Inr t \<and> avl_inv t
     \<and> (avl_height t = 1 + max (avl_height l) (avl_height r)
        \<or> (\<bar>avl_height l - avl_height r\<bar> = 2 \<and> avl_height t = max (avl_height l) (avl_height r)))"
proof -
  consider "\<bar>avl_height l - avl_height r\<bar> \<le> 1" | "avl_height l = avl_height r + 2"
    | "avl_height r = avl_height l + 2"
    using assms(3) by linarith
  then show ?thesis
  proof cases
    case 1
    with assms show ?thesis by (simp add: rebalance_id avl_inv_def)
  next
    case 2
    with assms rebalance_left_heavy[of l r k n d h] show ?thesis
      by (auto simp: avl_inv_def)
  next
    case 3
    with assms rebalance_right_heavy[of l r k n d h] show ?thesis
      by (auto simp: avl_inv_def)
  qed
qed

lemma avl_insert_inv:
  "avl_inv t \<Longrightarrow> \<exists>t'. avl_insert t key name data = Inr t' \<and> avl_inv t'
     \<and> (avl_height t' = avl_height t \<or> avl_height t' = avl_height t + 1)"
proof (induction t)
  case ANone
  show ?case by (simp add: avl_inv_def)
next
  case (AVLNode k n d l r h)
  from AVLNode.prems have il: "avl_inv l" and ir: "avl_inv r"
    and bal: "\<bar>avl_height l - avl_height r\<bar> \<le> 1"
    by (auto simp: avl_inv_def)
  consider "key < k" | "key > k" | "key = k" by linarith
  then show ?case
  proof cases
    case 1
    from AVLNode.IH(1)[OF il] obtain l' where l': "avl_insert l key name data = Inr l'"
      "avl_inv l'" "avl_height l' = avl_height l \<or> avl_height l' = avl_height l + 1"
      by blast
    with bal have "\<bar>avl_height l' - avl_height r\<bar> \<le> 2" by linarith
    from rebalance_inv[OF l'(2) ir this, of k n d h] l' bal 1 show ?thesis
      by (auto simp: max_def split: if_splits)
  next
    case 2
    from AVLNode.IH(2)[OF ir] obtain r' where r': "avl_insert r key name data = Inr r'"
      "avl_inv r'" "avl_height r' = avl_height r \<or> avl_height r' = avl_height r + 1"
      by blast
    with bal have "\<bar>avl_height l - avl_height r'\<bar> \<le> 2" by linarith
    from rebalance_inv[OF il r'(2) this, of k n d h] r' bal 2 show ?thesis
      by (auto simp: max_def split: if_splits)
  next
    case 3
    with AVLNode.prems show ?thesis by (simp add: avl_inv_def)
  qed
qed

lemma avl_min_node_some:
  "t \<noteq> ANone \<Longrightarrow> \<exists>sk sn sd sl sr sh. avl_min_node t = Inr (AVLNode sk sn sd sl sr sh)"
  by (induction t) auto

lemma avl_remove_inv:
  "avl_inv t \<Longrightarrow> \<exists>t'. avl_remove t key = Inr t' \<and> avl_inv t'
     \<and> (avl_height t' = avl_height t \<or> avl_height t' = avl_height t - 1)"
proof (induction t arbitrary: key)
  case ANone
  show ?case by (simp add: avl_inv_def)
next
  case (AVLNode k n d l r h)
  from AVLNode.prems have il: "avl_inv l" and ir: "avl_inv r"
    and bal: "\<bar>avl_height l - avl_height r\<bar> \<le> 1"
    by (auto simp: avl_inv_def)
  have right_case: "\<exists>t'. bind_result (avl_remove r q) (\<lambda>r'. rebalance (AVLNode a b c l r' h)) = Inr t'
      \<and> avl_inv t'
      \<and> (avl_height t' = avl_height (AVLNode k n d l r h) \<or> avl_height t' = avl_height (AVLNode k n d l r h) - 1)"
    for q a b c
  proof -
    from AVLNode.IH(2)[OF ir, of q] obtain r' where r': "avl_remove r q = Inr r'"
      "avl_inv r'" "avl_height r' = avl_height r \<or> avl_height r' = avl_height r - 1"
      by blast
    with bal have "\<bar>avl_height l - avl_height r'\<bar> \<le> 2" by linarith
    from rebalance_inv[OF il r'(2) this, of a b c h] r' bal show ?thesis
      by (auto simp: max_def split: if_splits)
  qed
  consider "key < k" | "key > k" | "key = k" "l = ANone" | "key = k" "l \<noteq> ANone" "r = ANone"
    | "key = k" "l \<noteq> ANone" "r \<noteq> ANone" by linarith
  then show ?case
  proof cases
    case 1
    from AVLNode.IH(1)[OF il, of key] obtain l' where l': "avl_remove l key = Inr l'"
      "avl_inv l'" "avl_height l' = avl_height l \<or> avl_height l' = avl_height l - 1"
      by blast
    with bal have "\<bar>avl_height l' - avl_height r\<bar> \<le> 2" by linarith
    from rebalance_inv[OF l'(2) ir this, of k n d h] l' bal 1 show ?thesis
      by (auto simp: max_def split: if_splits)
  next
    case 2
    with right_case[of key k n d] show ?thesis by simp
  next
    case 3
    with ir bal avl_height_nonneg[of r] show ?thesis by (auto simp: max_def)
  next
    case 4
    with il bal avl_height_nonneg[of l] show ?thesis by (auto simp: max_def)
  next
    case 5
    from avl_min_node_some[OF 5(3)] obtain sk sn sd sl sr sh
      where "avl_min_node r = Inr (AVLNode sk sn sd sl sr sh)" by blast
    with 5 right_case[of sk sk sn sd] show ?thesis by simp
  qed
qed

lemma bind_result_eq_Inr: "bind_result m f = Inr y \<longleftrightarrow> (\<exists>x. m = Inr x \<and> f x = Inr y)"
  by (cases m) auto

lemma between_trans:
  "\<forall>x\<in>A. x < (k::int) \<Longrightarrow> \<forall>y\<in>B. k < y \<Longrightarrow> \<forall>x\<in>A. \<forall>y\<in>B. x < y"
  by (meson order.strict_trans)

lemma avl_keys_inorder: "set (avl_inorder t) = avl_keys t"
  by (induction t) auto

lemma avl_ordered_inorder: "avl_ordered t \<longleftrightarrow> sorted_wrt (<) (avl_inorder t)"
proof (induction t)
  case ANone
  show ?case by simp
next
  case (AVLNode k n d l r h)
  show ?case
  proof
    assume a: "avl_ordered (AVLNode k n d l r h)"
    then have "\<forall>x\<in>avl_keys l. \<forall>y\<in>avl_keys r. x < y"
      using between_trans[of "avl_keys l" k "avl_keys r"] by simp
    with a AVLNode show "sorted_wrt (<) (avl_inorder (AVLNode k n d l r h))"
      by (simp add: sorted_wrt_append avl_keys_inorder)
  next
    assume "sorted_wrt (<) (avl_inorder (AVLNode k n d l r h))"
    with AVLNode show "avl_ordered (AVLNode k n d l r h)"
      by (simp add: sorted_wrt_append avl_keys_inorder)
  qed
qed

lemma rebalance_keys:
  "rebalance (AVLNode k n d l r h) = Inr t \<Longrightarrow> avl_keys t = insert k (avl_keys l \<union> avl_keys r)"
  using rebalance_inorder[of k n d l r h t] avl_keys_inorder[of t]
  by (auto simp: avl_keys_inorder)

lemma rebalance_ordered:
  "rebalance (AVLNode k n d l r h) = Inr t \<Longrightarrow> avl_ordered t = avl_ordered (AVLNode k n d l r h)"
  using rebalance_inorder[of k n d l r h t]
  by (simp add: avl_ordered_inorder)

lemma avl_insert_keys:
  "avl_insert t key name data = Inr t' \<Longrightarrow> avl_keys t' = insert key (avl_keys t)"
proof (induction t arbitrary: t')
  case ANone
  then show ?case by auto
next
  case (AVLNode k n d l r h)
  then show ?case
    by (auto simp: bind_result_eq_Inr rebalance_keys split: if_splits)
qed

lemma avl_insert_ordered:
  "avl_ordered t \<Longrightarrow> avl_insert t key name data = Inr t' \<Longrightarrow> avl_ordered t'"
proof (induction t arbitrary: t')
  case ANone
  then show ?case by auto
next
  case (AVLNode k n d l r h)
  from AVLNode.prems(1) have ol: "avl_ordered l" and or: "avl_ordered r"
    and lt: "\<forall>x \<in> avl_keys l. x < k" and gt: "\<forall>x \<in> avl_keys r. k < x"
    by auto
  consider "key < k" | "key > k" | "key = k" by linarith
  then show ?case
  proof cases
    case 1
    with AVLNode.prems(2) obtain l' where l': "avl_insert l key name data = Inr l'"
      "rebalance (AVLNode k n d l' r h) = Inr t'"
      by (auto simp: bind_result_eq_Inr)
    have "avl_ordered (AVLNode k n d l' r h)"
      using AVLNode.IH(1)[OF ol l'(1)] avl_insert_keys[OF l'(1)] or lt gt 1 by simp
    with rebalance_ordered[OF l'(2)] show ?thesis by simp
  next
    case 2
    with AVLNode.prems(2) obtain r' where r': "avl_insert r key name data = Inr r'"
      "rebalance (AVLNode k n d l r' h) = Inr t'"
      by (auto simp: bind_result_eq_Inr)
    have "avl_ordered (AVLNode k n d l r' h)"
      using AVLNode.IH(2)[OF or r'(1)] avl_insert_keys[OF r'(1)] ol lt gt 2 by simp
    with rebalance_ordered[OF r'(2)] show ?thesis by simp
  next
    case 3
    with AVLNode.prems show ?thesis by auto
  qed
qed

lemma avl_min_node_least:
  "avl_ordered t \<Longrightarrow> avl_min_node t = Inr (AVLNode sk sn sd sl sr sh) \<Longrightarrow>
     sk \<in> avl_keys t \<and> (\<forall>x \<in> avl_keys t. sk \<le> x)"
proof (induction t)
  case ANone
  then show ?case by simp
next
  case (AVLNode k n d l r h)
  then show ?case by (fastforce split: if_splits)
qed

lemma avl_remove_keys_ordered:
  "avl_ordered t \<Longrightarrow> avl_remove t key = Inr t' \<Longrightarrow>
     avl_ordered t' \<and> avl_keys t' = avl_keys t - {key}"
proof (induction t arbitrary: key t')
  case ANone
  then show ?case by auto
next
  case (AVLNode k n d l r h)
  from AVLNode.prems(1) have ol: "avl_ordered l" and or: "avl_ordered r"
    and lt: "\<forall>x \<in> avl_keys l. x < k" and gt: "\<forall>x \<in> avl_keys r. k < x"
    by auto
  consider "key < k" | "key > k" | "key = k" "l = ANone" | "key = k" "l \<noteq> ANone" "r = ANone"
    | "key = k" "l \<noteq> ANone" "r \<noteq> ANone" by linarith
  then show ?case
  proof cases
    case 1
    with AVLNode.prems(2) obtain l' where l': "avl_remove l key = Inr l'"
      "rebalance (AVLNode k n d l' r h) = Inr t'"
      by (auto simp: bind_result_eq_Inr)
    from AVLNode.IH(1)[OF ol l'(1)] have l'': "avl_ordered l'" "avl_keys l' = avl_keys l - {key}"
      by auto
    have o: "avl_ordered (AVLNode k n d l' r h)"
      using l'' or lt gt by simp
    have "key \<notin> avl_keys r" using gt 1 by auto
    then have "insert k (avl_keys l' \<union> avl_keys r) = avl_keys (AVLNode k n d l r h) - {key}"
      using l''(2) 1 by auto
    with o rebalance_ordered[OF l'(2)] rebalance_keys[OF l'(2)] show ?thesis by simp
  next
    case 2
    with AVLNode.prems(2) obtain r' where r': "avl_remove r key = Inr r'"
      "rebalance (AVLNode k n d l r' h) = Inr t'"
      by (auto simp: bind_result_eq_Inr)
    from AVLNode.IH(2)[OF or r'(1)] have r'': "avl_ordered r'" "avl_keys r' = avl_keys r - {key}"
      by auto
    have o: "avl_ordered (AVLNode k n d l r' h)"
      using r'' ol lt gt by simp
    have "key \<notin> avl_keys l" using lt 2 by auto
    then have "insert k (avl_keys l \<union> avl_keys r') = avl_keys (AVLNode k n d l r h) - {key}"
      using r''(2) 2 by auto
    with o rebalance_ordered[OF r'(2)] rebalance_keys[OF r'(2)] show ?thesis by simp
  next
    case 3
    with AVLNode.prems or gt show ?thesis by auto
  next
    case 4
    with AVLNode.prems ol lt show ?thesis by auto
  next
    case 5
    from avl_min_node_some[OF 5(3)] obtain sk sn sd sl sr sh
      where m: "avl_min_node r = Inr (AVLNode sk sn sd sl sr sh)" by blast
    from avl_min_node_least[OF or m] have sk: "sk \<in> avl_keys r" "\<forall>x \<in> avl_keys r. sk \<le> x"
      by auto
    from 5 m AVLNode.prems(2) obtain r' where r': "avl_remove r sk = Inr r'"
      "rebalance (AVLNode sk sn sd l r' h) = Inr t'"
      by (auto simp: bind_result_eq_Inr)
    from AVLNode.IH(2)[OF or r'(1)] have r'': "avl_ordered r'" "avl_keys r' = avl_keys r - {sk}"
      by auto
    have ksk: "k < sk" using sk(1) gt by auto
    have "\<forall>x \<in> avl_keys l. x < sk" using lt ksk by auto
    moreover have "\<forall>x \<in> avl_keys r'. sk < x" using r''(2) sk(2) by fastforce
    ultimately have o: "avl_ordered (AVLNode sk sn sd l r' h)"
      using r''(1) ol by simp
    have "k \<notin> avl_keys l" "k \<notin> avl_keys r" using lt gt by auto
    then have "insert sk (avl_keys l \<union> avl_keys r') = avl_keys (AVLNode k n d l r h) - {key}"
      using r''(2) sk(1) 5(1) by auto
    with o rebalance_ordered[OF r'(2)] rebalance_keys[OF r'(2)] show ?thesis by simp
  qed
qed

text \<open>BST\<close>

lemma bst_keys_inorder: "set (bst_inorder t) = bst_keys t"
  by (induction t) auto

lemma bst_ordered_inorder: "bst_ordered t \<longleftrightarrow> sorted_wrt (<) (bst_inorder t)"
proof (induction t)
  case BNone
  show ?case by simp
next
  case (BSTNode k n d l r)
  show ?case
  proof
    assume a: "bst_ordered (BSTNode k n d l r)"
    then have "\<forall>x\<in>bst_keys l. \<forall>y\<in>bst_keys r. x < y"
      using between_trans[of "bst_keys l" k "bst_keys r"] by simp
    with a BSTNode show "sorted_wrt (<) (bst_inorder (BSTNode k n d l r))"
      by (simp add: sorted_wrt_append bst_keys_inorder)
  next
    assume "sorted_wrt (<) (bst_inorder (BSTNode k n d l r))"
    with BSTNode show "bst_ordered (BSTNode k n d l r)"
      by (simp add: sorted_wrt_append bst_keys_inorder)
  qed
qed

lemma bst_insert_keys: "bst_keys (bst_insert t key name data) = insert key (bst_keys t)"
  by (induction t) auto

lemma bst_insert_ordered: "bst_ordered t \<Longrightarrow> bst_ordered (bst_insert t key name data)"
  by (induction t) (auto simp: bst_insert_keys)

lemma bst_min_node_some:
  "t \<noteq> BNone \<Longrightarrow> \<exists>sk sn sd sl sr. bst_min_node t = Inr (BSTNode sk sn sd sl sr)"
  by (induction t) auto

lemma bst_min_node_least:
  "bst_ordered t \<Longrightarrow> bst_min_node t = Inr (BSTNode sk sn sd sl sr) \<Longrightarrow>
     sk \<in> bst_keys t \<and> (\<forall>x \<in> bst_keys t. sk \<le> x)"
proof (induction t)
  case BNone
  then show ?case by simp
next
  case (BSTNode k n d l r)
  then show ?case by (fastforce split: if_splits)
qed

lemma bst_remove_total: "\<exists>t'. bst_remove t key = Inr t'"
proof (induction t arbitrary: key)
  case BNone
  show ?case by simp
next
  case (BSTNode k n d l r)
  from BSTNode.IH(1)[of key] obtain l' where l': "bst_remove l key = Inr l'" by blast
  have r': "\<exists>r'. bst_remove r q = Inr r'" for q using BSTNode.IH(2)[of q] .
  show ?case
  proof (cases "r = BNone")
    case True
    with l' show ?thesis by auto
  next
    case False
    from bst_min_node_some[OF False] obtain sk sn sd sl sr
      where m: "bst_min_node r = Inr (BSTNode sk sn sd sl sr)" by blast
    from r'[of sk] r'[of key] l' m show ?thesis by auto
  qed
qed

lemma bst_remove_keys_ordered:
  "bst_ordered t \<Longrightarrow> bst_remove t key = Inr t' \<Longrightarrow>
     bst_ordered t' \<and> bst_keys t' = bst_keys t - {key}"
proof (induction t arbitrary: key t')
  case BNone
  then show ?case by auto
next
  case (BSTNode k n d l r)
  from BSTNode.prems(1) have ol: "bst_ordered l" and or: "bst_ordered r"
    and lt: "\<forall>x \<in> bst_keys l. x < k" and gt: "\<forall>x \<in> bst_keys r. k < x"
    by auto
  consider "key < k" | "key > k" | "key = k" "l = BNone" | "key = k" "l \<noteq> BNone" "r = BNone"
    | "key = k" "l \<noteq> BNone" "r \<noteq> BNone" by linarith
  then show ?case
  proof cases
    case 1
    with BSTNode.prems(2) obtain l' where l': "bst_remove l key = Inr l'"
      "t' = BSTNode k n d l' r"
      by (auto simp: bind_result_eq_Inr)
    from BSTNode.IH(1)[OF ol l'(1)] have l'': "bst_ordered l'" "bst_keys l' = bst_keys l - {key}"
      by auto
    have o: "bst_ordered (BSTNode k n d l' r)"
      using l'' or lt gt by simp
    have "key \<notin> bst_keys r" using gt 1 by auto
    then have "insert k (bst_keys l' \<union> bst_keys r) = bst_keys (BSTNode k n d l r) - {key}"
      using l''(2) 1 by auto
    with o l'(2) show ?thesis by simp
  next
    case 2
    with BSTNode.prems(2) obtain r' where r': "bst_remove r key = Inr r'"
      "t' = BSTNode k n d l r'"
      by (auto simp: bind_result_eq_Inr)
    from BSTNode.IH(2)[OF or r'(1)] have r'': "bst_ordered r'" "bst_keys r' = bst_keys r - {key}"
      by auto
    have o: "bst_ordered (BSTNode k n d l r')"
      using r'' ol lt gt by simp
    have "key \<notin> bst_keys l" using lt 2 by auto
    then have "insert k (bst_keys l \<union> bst_keys r') = bst_keys (BSTNode k n d l r) - {key}"
      using r''(2) 2 by auto
    with o r'(2) show ?thesis by simp
  next
    case 3
    with BSTNode.prems or gt show ?thesis by auto
  next
    case 4
    with BSTNode.prems ol lt show ?thesis by auto
  next
    case 5
    from bst_min_node_some[OF 5(3)] obtain sk sn sd sl sr
      where m: "bst_min_node r = Inr (BSTNode sk sn sd sl sr)" by blast
    from bst_min_node_least[OF or m] have sk: "sk \<in> bst_keys r" "\<forall>x \<in> bst_keys r. sk \<le> x"
      by auto
    from 5 m BSTNode.prems(2) obtain r' where r': "bst_remove r sk = Inr r'"
      "t' = BSTNode sk sn sd l r'"
      by (auto simp: bind_result_eq_Inr)
    from BSTNode.IH(2)[OF or r'(1)] have r'': "bst_ordered r'" "bst_keys r' = bst_keys r - {sk}"
      by auto
    have ksk: "k < sk" using sk(1) gt by auto
    have "\<forall>x \<in> bst_keys l. x < sk" using lt ksk by auto
    moreover have "\<forall>x \<in> bst_keys r'. sk < x" using r''(2) sk(2) by fastforce
    ultimately have o: "bst_ordered (BSTNode sk sn sd l r')"
      using r''(1) ol by simp
    have "k \<notin> bst_keys l" "k \<notin> bst_keys r" using lt gt by auto
    then have "insert sk (bst_keys l \<union> bst_keys r') = bst_keys (BSTNode k n d l r) - {key}"
      using r''(2) sk(1) 5(1) by auto
    with o r'(2) show ?thesis by simp
  qed
qed

lemma avl_run_inv:
  "avl_inv t \<Longrightarrow> avl_ordered t \<Longrightarrow>
     \<exists>t'. avl_run t ops = Inr t' \<and> avl_inv t' \<and> avl_ordered t'"
proof (induction ops arbitrary: t)
  case Nil
  then show ?case by simp
next
  case (Cons x xs)
  have "\<exists>t1. avl_apply t x = Inr t1 \<and> avl_inv t1 \<and> avl_ordered t1"
  proof (cases x)
    case (Insert key name data)
    from avl_insert_inv[OF Cons.prems(1), of key name data] obtain t1
      where t1: "avl_insert t key name data = Inr t1" "avl_inv t1" by blast
    with avl_insert_ordered[OF Cons.prems(2) t1(1)] Insert show ?thesis by simp
  next
    case (Remove key)
    from avl_remove_inv[OF Cons.prems(1), of key] obtain t1
      where t1: "avl_remove t key = Inr t1" "avl_inv t1" by blast
    with avl_remove_keys_ordered[OF Cons.prems(2) t1(1)] Remove show ?thesis by simp
  qed
  then obtain t1 where t1: "avl_apply t x = Inr t1" "avl_inv t1" "avl_ordered t1" by blast
  from Cons.IH[OF t1(2,3)] t1(1) show ?case by simp
qed

lemma bst_run_ordered:
  "bst_ordered t \<Longrightarrow> \<exists>t'. bst_run t ops = Inr t' \<and> bst_ordered t'"
proof (induction ops arbitrary: t)
  case Nil
  then show ?case by simp
next
  case (Cons x xs)
  have "\<exists>t1. bst_apply t x = Inr t1 \<and> bst_ordered t1"
  proof (cases x)
    case (Insert key name data)
    with bst_insert_ordered[OF Cons.prems] show ?thesis by simp
  next
    case (Remove key)
    from bst_remove_total[of t key] obtain t1 where t1: "bst_remove t key = Inr t1" by blast
    with bst_remove_keys_ordered[OF Cons.prems t1] Remove show ?thesis by simp
  qed
  then obtain t1 where t1: "bst_apply t x = Inr t1" "bst_ordered t1" by blast
  from Cons.IH[OF t1(2)] t1(1) show ?case by simp
qed

text \<open>
  Claim C1. Starting from the empty AVL tree, after each operation of any sequence of
  inserts and removes (the first \<open>i\<close> operations of \<open>ops\<close>, for every \<open>i\<close>) the call
  has returned without an exception and every node of the tree satisfies
  \<open>|height(left) - height(right)| \<le> 1\<close>, for the height of the specification.
\<close>

theorem avl_balance_after_every_operation:
  "\<exists>t. avl_run ANone (take i ops) = Inr t \<and> avl_balanced t"
proof -
  have "avl_inv ANone" "avl_ordered ANone" by (simp_all add: avl_inv_def)
  from avl_run_inv[OF this, of "take i ops"] show ?thesis
    by (auto simp: avl_inv_def)
qed

text \<open>Claim C1 at the scenario of the specification: 10, 20, 30, 40, 50, 25.\<close>

theorem avl_balance_after_every_operation_witness:
  "\<exists>t. avl_run ANone (take 6 [Insert 10 ''a'' PyNone, Insert 20 ''b'' PyNone,
       Insert 30 ''c'' PyNone, Insert 40 ''d'' PyNone, Insert 50 ''e'' PyNone,
       Insert 25 ''f'' PyNone, Remove 40]) = Inr t \<and> avl_balanced t"
  by (rule avl_balance_after_every_operation)

text \<open>
  Claim C2. Any sequence of inserts and removes, applied to an empty AVL tree or to an
  empty BST, returns a tree that satisfies the BST order invariant: node by node
  (\<open>avl_ordered\<close>, \<open>bst_ordered\<close>), and as a strictly increasing in-order traversal.
\<close>

theorem order_invariant_both_trees:
  "(\<exists>t. avl_run ANone ops = Inr t \<and> avl_ordered t \<and> sorted_wrt (<) (avl_inorder t)) \<and>
   (\<exists>t. bst_run BNone ops = Inr t \<and> bst_ordered t \<and> sorted_wrt (<) (bst_inorder t))"
proof
  have "avl_inv ANone" "avl_ordered ANone" by (simp_all add: avl_inv_def)
  from avl_run_inv[OF this, of ops]
  show "\<exists>t. avl_run ANone ops = Inr t \<and> avl_ordered t \<and> sorted_wrt (<) (avl_inorder t)"
    by (auto simp: avl_ordered_inorder)
next
  have "bst_ordered BNone" by simp
  from bst_run_ordered[OF this, of ops]
  show "\<exists>t. bst_run BNone ops = Inr t \<and> bst_ordered t \<and> sorted_wrt (<) (bst_inorder t)"
    by (auto simp: bst_ordered_inorder)
qed

text \<open>Claim C2 at a run that inserts 2, 1, 3 and removes the root.\<close>

theorem order_invariant_both_trees_witness:
  "(\<exists>t. avl_run ANone [Insert 2 ''b'' PyNone, Insert 1 ''a'' PyNone, Insert 3 ''c'' PyNone,
        Remove 2] = Inr t \<and> avl_ordered t \<and> sorted_wrt (<) (avl_inorder t)) \<and>
   (\<exists>t. bst_run BNone [Insert 2 ''b'' PyNone, Insert 1 ''a'' PyNone, Insert 3 ''c'' PyNone,
        Remove 2] = Inr t \<and> bst_ordered t \<and> sorted_wrt (<) (bst_inorder t))"
  by (rule order_invariant_both_trees)

lemma avl_remove_absent:
  "avl_inv t \<Longrightarrow> key \<notin> avl_keys t \<Longrightarrow> avl_remove t key = Inr t"
proof (induction t)
  case ANone
  show ?case by simp
next
  case (AVLNode k n d l r h)
  from AVLNode.prems(1) have il: "avl_inv l" and ir: "avl_inv r"
    and hl: "heights_ok l" and hr: "heights_ok r"
    and bal: "\<bar>avl_height l - avl_height r\<bar> \<le> 1"
    and h: "h = 1 + max (avl_height l) (avl_height r)"
    by (auto simp: avl_inv_def)
  from AVLNode.prems(2) have nk: "key \<noteq> k" "key \<notin> avl_keys l" "key \<notin> avl_keys r" by auto
  have reb: "rebalance (AVLNode k n d l r h) = Inr (AVLNode k n d l r h)"
    using rebalance_id[OF hl hr bal, of k n d h] h by simp
  from AVLNode.IH(1)[OF il nk(2)] AVLNode.IH(2)[OF ir nk(3)] nk(1) reb
  show ?case by simp
qed

lemma bst_remove_absent: "key \<notin> bst_keys t \<Longrightarrow> bst_remove t key = Inr t"
  by (induction t) auto

text \<open>
  Claim C8. Removing a key that is not in the tree raises nothing and returns the tree
  as it was: for every AVL tree (one whose stored heights are right and which is
  balanced) and for every BST.
\<close>

theorem remove_absent_key_is_noop:
  "(avl_inv t \<and> key \<notin> avl_keys t \<longrightarrow> avl_remove t key = Inr t) \<and>
   (key \<notin> bst_keys b \<longrightarrow> bst_remove b key = Inr b)"
  using avl_remove_absent[of t key] bst_remove_absent[of key b] by blast

text \<open>Claim C8 at a two-node tree and the absent key 5.\<close>

theorem remove_absent_key_is_noop_witness:
  "avl_inv (AVLNode 2 ''b'' PyNone (AVLNode 1 ''a'' PyNone ANone ANone 1) ANone 2)
   \<and> 5 \<notin> avl_keys (AVLNode 2 ''b'' PyNone (AVLNode 1 ''a'' PyNone ANone ANone 1) ANone 2)
   \<and> avl_remove (AVLNode 2 ''b'' PyNone (AVLNode 1 ''a'' PyNone ANone ANone 1) ANone 2) 5
       = Inr (AVLNode 2 ''b'' PyNone (AVLNode 1 ''a'' PyNone ANone ANone 1) ANone 2)
   \<and> 5 \<notin> bst_keys (BSTNode 2 ''b'' PyNone (BSTNode 1 ''a'' PyNone BNone BNone) BNone)
   \<and> bst_remove (BSTNode 2 ''b'' PyNone (BSTNode 1 ''a'' PyNone BNone BNone) BNone) 5
       = Inr (BSTNode 2 ''b'' PyNone (BSTNode 1 ''a'' PyNone BNone BNone) BNone)"
proof -
  have a: "avl_inv (AVLNode 2 ''b'' PyNone (AVLNode 1 ''a'' PyNone ANone ANone 1) ANone 2)"
    by (simp add: avl_inv_def)
  have b: "5 \<notin> avl_keys (AVLNode 2 ''b'' PyNone (AVLNode 1 ''a'' PyNone ANone ANone 1) ANone 2)"
    by simp
  have c: "5 \<notin> bst_keys (BSTNode 2 ''b'' PyNone (BSTNode 1 ''a'' PyNone BNone BNone) BNone)"
    by simp
  from remove_absent_key_is_noop[of
      "AVLNode 2 ''b'' PyNone (AVLNode 1 ''a'' PyNone ANone ANone 1) ANone 2" 5
      "BSTNode 2 ''b'' PyNone (BSTNode 1 ''a'' PyNone BNone BNone) BNone"] a b c
  show ?thesis by blast
qed

lemma avl_relabel_absent: "key \<notin> avl_keys t \<Longrightarrow> avl_relabel t key name data = t"
  by (induction t) auto

lemma avl_relabel_height [simp]: "avl_height (avl_relabel t key name data) = avl_height t"
  by (induction t) auto

lemma avl_relabel_heights_ok [simp]: "heights_ok (avl_relabel t key name data) = heights_ok t"
  by (induction t) auto

lemma avl_insert_present:
  "avl_inv t \<Longrightarrow> avl_ordered t \<Longrightarrow> key \<in> avl_keys t \<Longrightarrow>
     avl_insert t key name data = Inr (avl_relabel t key name data)"
proof (induction t)
  case ANone
  then show ?case by simp
next
  case (AVLNode k n d l r h)
  from AVLNode.prems(1) have il: "avl_inv l" and ir: "avl_inv r"
    and hl: "heights_ok l" and hr: "heights_ok r"
    and bal: "\<bar>avl_height l - avl_height r\<bar> \<le> 1"
    and h: "h = 1 + max (avl_height l) (avl_height r)"
    by (auto simp: avl_inv_def)
  from AVLNode.prems(2) have ol: "avl_ordered l" and or: "avl_ordered r"
    and lt: "\<forall>x \<in> avl_keys l. x < k" and gt: "\<forall>x \<in> avl_keys r. k < x"
    by auto
  consider "key < k" | "key > k" | "key = k" by linarith
  then show ?case
  proof cases
    case 1
    with AVLNode.prems(3) gt have inl: "key \<in> avl_keys l" and nr: "key \<notin> avl_keys r"
      by auto
    have "rebalance (AVLNode k n d (avl_relabel l key name data) r h)
        = Inr (AVLNode k n d (avl_relabel l key name data) r h)"
      using rebalance_id[of "avl_relabel l key name data" r k n d h] hl hr bal h by simp
    with AVLNode.IH(1)[OF il ol inl] avl_relabel_absent[OF nr] 1 show ?thesis by simp
  next
    case 2
    with AVLNode.prems(3) lt have inr: "key \<in> avl_keys r" and nl: "key \<notin> avl_keys l"
      by auto
    have "rebalance (AVLNode k n d l (avl_relabel r key name data) h)
        = Inr (AVLNode k n d l (avl_relabel r key name data) h)"
      using rebalance_id[of l "avl_relabel r key name data" k n d h] hl hr bal h by simp
    with AVLNode.IH(2)[OF ir or inr] avl_relabel_absent[OF nl] 2 show ?thesis by simp
  next
    case 3
    with lt gt have "key \<notin> avl_keys l" "key \<notin> avl_keys r" by auto
    with 3 show ?thesis by (simp add: avl_relabel_absent py_or_def)
  qed
qed

text \<open>
  Claim C6. For an AVL tree (ordered, stored heights right, balanced) that holds \<open>key\<close>,
  \<open>insert(key, name, data)\<close> raises nothing and returns the same tree except at the node
  of \<open>key\<close>: its label is \<open>name\<close>, its payload is \<open>data\<close> when \<open>data\<close> is non-empty and
  the previous payload otherwise; places, keys, heights and all other nodes are unchanged.
\<close>

theorem avl_insert_existing_key_updates_in_place:
  "avl_inv t \<and> avl_ordered t \<and> key \<in> avl_keys t \<longrightarrow>
     avl_insert t key name data = Inr (avl_relabel t key name data)"
  using avl_insert_present[of t key name data] by blast

text \<open>Claim C6 at a two-node tree: no payload given for key 1, so the payload stays.\<close>

theorem avl_insert_existing_key_updates_in_place_witness:
  "avl_inv (AVLNode 2 ''b'' default_payload (AVLNode 1 ''a'' default_payload ANone ANone 1) ANone 2)
   \<and> avl_ordered (AVLNode 2 ''b'' default_payload (AVLNode 1 ''a'' default_payload ANone ANone 1) ANone 2)
   \<and> 1 \<in> avl_keys (AVLNode 2 ''b'' default_payload (AVLNode 1 ''a'' default_payload ANone ANone 1) ANone 2)
   \<and> avl_insert (AVLNode 2 ''b'' default_payload (AVLNode 1 ''a'' default_payload ANone ANone 1) ANone 2)
        1 ''z'' PyNone
      = Inr (AVLNode 2 ''b'' default_payload (AVLNode 1 ''z'' default_payload ANone ANone 1) ANone 2)"
proof -
  let ?t = "AVLNode 2 ''b'' default_payload (AVLNode 1 ''a'' default_payload ANone ANone 1) ANone 2"
  have a: "avl_inv ?t" by (simp add: avl_inv_def)
  have b: "avl_ordered ?t" by simp
  have c: "1 \<in> avl_keys ?t" by simp
  from avl_insert_existing_key_updates_in_place[of ?t 1 "''z''" PyNone] a b c
  have "avl_insert ?t 1 ''z'' PyNone = Inr (avl_relabel ?t 1 ''z'' PyNone)" by blast
  with a b c show ?thesis by simp
qed

lemma bst_relabel_absent: "key \<notin> bst_keys t \<Longrightarrow> bst_relabel t key name data = t"
  by (induction t) auto

lemma bst_insert_present:
  "bst_ordered t \<Longrightarrow> key \<in> bst_keys t \<Longrightarrow>
     bst_insert t key name data = bst_relabel t key name data"
proof (induction t)
  case BNone
  then show ?case by simp
next
  case (BSTNode k n d l r)
  from BSTNode.prems(1) have ol: "bst_ordered l" and or: "bst_ordered r"
    and lt: "\<forall>x \<in> bst_keys l. x < k" and gt: "\<forall>x \<in> bst_keys r. k < x"
    by auto
  consider "key < k" | "key > k" | "key = k" by linarith
  then show ?case
  proof cases
    case 1
    with BSTNode.prems(2) gt have inl: "key \<in> bst_keys l" and nr: "key \<notin> bst_keys r"
      by auto
    with BSTNode.IH(1)[OF ol inl] bst_relabel_absent[OF nr] 1 show ?thesis by simp
  next
    case 2
    with BSTNode.prems(2) lt have inr: "key \<in> bst_keys r" and nl: "key \<notin> bst_keys l"
      by auto
    with BSTNode.IH(2)[OF or inr] bst_relabel_absent[OF nl] 2 show ?thesis by simp
  next
    case 3
    with lt gt have "key \<notin> bst_keys l" "key \<notin> bst_keys r" by auto
    with 3 show ?thesis by (simp add: bst_relabel_absent)
  qed
qed

lemma bst_insert_fresh:
  "key \<notin> bst_keys t \<Longrightarrow>
     bst_search (bst_insert t key name data) key = BSTNode key name data BNone BNone"
  by (induction t) auto

text \<open>
  Claim C5, as stated, fails, on both sides of the contract it calls identical. On the
  one-node BST that holds key 1 with a graph as payload, \<open>insert(1, 'b')\<close> with no payload
  leaves \<open>None\<close> as the payload of the node, where the contract of the AVL tree
  (\<open>bst_relabel_keep\<close>) keeps the graph. And on the empty tree \<open>insert(1, 'a')\<close> with no
  payload makes a node whose payload is \<open>None\<close>, where the AVL tree stores a fresh graph.
\<close>

theorem bst_insert_keeps_payload_counterexample:
  "bst_data (bst_search (bst_insert (BSTNode 1 ''a'' default_payload BNone BNone) 1 ''b'' PyNone) 1)
     = Inr PyNone
   \<and> bst_data (bst_search (BSTNode 1 ''a'' default_payload BNone BNone) 1) = Inr default_payload
   \<and> default_payload \<noteq> PyNone
   \<and> bst_insert (BSTNode 1 ''a'' default_payload BNone BNone) 1 ''b'' PyNone
     \<noteq> bst_relabel_keep (BSTNode 1 ''a'' default_payload BNone BNone) 1 ''b'' PyNone
   \<and> bst_insert BNone 1 ''a'' PyNone = BSTNode 1 ''a'' PyNone BNone BNone
   \<and> avl_insert ANone 1 ''a'' PyNone = Inr (AVLNode 1 ''a'' default_payload ANone ANone 1)"
  by (simp add: default_payload_def)

text \<open>
  Claim C5, amended. For an ordered BST that holds \<open>key\<close>, \<open>insert(key, name, data)\<close>
  returns the same tree except at the node of \<open>key\<close>, whose label becomes \<open>name\<close> and
  whose payload becomes \<open>data\<close>, whatever \<open>data\<close> is (\<open>None\<close> when no payload is given).
  For a key that the tree does not hold, the key is added, and the node found under it is
  a leaf with the label \<open>name\<close> and the payload \<open>data\<close> as given (\<open>None\<close> when no payload
  is given: the BST creates no default graph).
\<close>

theorem bst_insert_existing_key_overwrites:
  "(bst_ordered t \<and> key \<in> bst_keys t \<longrightarrow>
      bst_insert t key name data = bst_relabel t key name data)
   \<and> (key \<notin> bst_keys t \<longrightarrow>
      bst_search (bst_insert t key name data) key = BSTNode key name data BNone BNone)
   \<and> bst_keys (bst_insert t key name data) = insert key (bst_keys t)"
  using bst_insert_present[of t key name data] bst_insert_fresh[of key t name data]
    bst_insert_keys[of t key name data]
  by blast

text \<open>Claim C5, amended, at a two-node BST: no payload given for the key 1 it holds, and
  no payload given for the key 7 it does not hold.\<close>

theorem bst_insert_existing_key_overwrites_witness:
  "bst_ordered (BSTNode 2 ''b'' default_payload (BSTNode 1 ''a'' default_payload BNone BNone) BNone)
   \<and> 1 \<in> bst_keys (BSTNode 2 ''b'' default_payload (BSTNode 1 ''a'' default_payload BNone BNone) BNone)
   \<and> bst_insert (BSTNode 2 ''b'' default_payload (BSTNode 1 ''a'' default_payload BNone BNone) BNone)
        1 ''z'' PyNone
      = BSTNode 2 ''b'' default_payload (BSTNode 1 ''z'' PyNone BNone BNone) BNone
   \<and> 7 \<notin> bst_keys (BSTNode 2 ''b'' default_payload (BSTNode 1 ''a'' default_payload BNone BNone) BNone)
   \<and> bst_search (bst_insert (BSTNode 2 ''b'' default_payload
          (BSTNode 1 ''a'' default_payload BNone BNone) BNone) 7 ''n'' PyNone) 7
      = BSTNode 7 ''n'' PyNone BNone BNone"
proof -
  let ?t = "BSTNode 2 ''b'' default_payload (BSTNode 1 ''a'' default_payload BNone BNone) BNone"
  have a: "bst_ordered ?t" by simp
  have b: "1 \<in> bst_keys ?t" by simp
  have c: "7 \<notin> bst_keys ?t" by simp
  from bst_insert_existing_key_overwrites[of ?t 1 "''z''" PyNone] a b
  have 1: "bst_insert ?t 1 ''z'' PyNone = bst_relabel ?t 1 ''z'' PyNone" by blast
  from bst_insert_existing_key_overwrites[of ?t 7 "''n''" PyNone] c
  have 2: "bst_search (bst_insert ?t 7 ''n'' PyNone) 7 = BSTNode 7 ''n'' PyNone BNone BNone"
    by blast
  from 1 have 3: "bst_insert ?t 1 ''z'' PyNone
      = BSTNode 2 ''b'' default_payload (BSTNode 1 ''z'' PyNone BNone BNone) BNone" by simp
  from a b c 2 3 show ?thesis by blast
qed

section \<open>Proofs: the graph\<close>

lemma adj_append_keys: "fst ` set (adj_append a u e) = insert u (fst ` set a)"
  by (induction a u e rule: adj_append.induct) auto

lemma adj_append_get:
  "adj_get (adj_append a u e) x = (if x = u then adj_get a u @ [e] else adj_get a x)"
  by (induction a u e rule: adj_append.induct) auto

lemma adj_append_keys_list:
  "u \<in> fst ` set a \<Longrightarrow> map fst (adj_append a u e) = map fst a"
  by (induction a u e rule: adj_append.induct) auto

lemma add_edge_vertex_set:
  "set (vertices (add_edge g u v w))
     = set (vertices g) \<union> (if directed g then {u} else {u, v})"
  by (auto simp: vertices_def add_edge_def Let_def adj_append_keys)

lemma add_edge_vertices_same:
  "has_vertex g u \<Longrightarrow> directed g \<or> has_vertex g v \<Longrightarrow>
     vertices (add_edge g u v w) = vertices g"
proof -
  assume u: "has_vertex g u" and v: "directed g \<or> has_vertex g v"
  have 1: "map fst (adj_append (adj g) u (v, w)) = map fst (adj g)"
    using u by (simp add: has_vertex_def adj_append_keys_list)
  show ?thesis
  proof (cases "directed g")
    case True
    with 1 show ?thesis by (simp add: vertices_def add_edge_def Let_def)
  next
    case False
    with v have "v \<in> fst ` set (adj_append (adj g) u (v, w))"
      by (simp add: has_vertex_def adj_append_keys)
    from adj_append_keys_list[OF this, of "(u, w)"] 1 False show ?thesis
      by (simp add: vertices_def add_edge_def Let_def)
  qed
qed

lemma add_edge_directed: "directed (add_edge g u v w) = directed g"
  by (simp add: add_edge_def Let_def)

lemma add_edge_adj_directed:
  "directed g \<Longrightarrow> adj_get (adj (add_edge g u v w)) x
          = (if x = u then adj_get (adj g) u @ [(v, w)] else adj_get (adj g) x)"
  by (simp add: add_edge_def Let_def adj_append_get)

lemma add_edge_adj_undirected:
  "\<not> directed g \<Longrightarrow> adj_get (adj (add_edge g u v w)) x
          = (if x = v then (if u = v then adj_get (adj g) u @ [(v, w)] else adj_get (adj g) v)
                          @ [(u, w)]
             else if x = u then adj_get (adj g) u @ [(v, w)]
             else adj_get (adj g) x)"
  by (simp add: add_edge_def Let_def adj_append_get)

text \<open>
  Claim C7, as stated, fails: on the empty undirected graph \<open>add_edge('a', 'b', 1)\<close>
  leaves both \<open>'a'\<close> and \<open>'b'\<close> in \<open>vertices()\<close>, which was empty before the call. The
  \<open>defaultdict\<close> creates the missing keys.
\<close>

theorem add_edge_vertices_unchanged_counterexample:
  "vertices (add_edge (new_Graph False) ''a'' ''b'' (1::real)) = [''a'', ''b'']
   \<and> vertices (new_Graph False :: (string, real) Graph) = []
   \<and> set (vertices (add_edge (new_Graph False) ''a'' ''b'' (1::real)))
       \<noteq> set (vertices (new_Graph False :: (string, real) Graph))"
  by (simp add: vertices_def add_edge_def new_Graph_def)

text \<open>
  Claim C7, amended. \<open>add_edge(u, v, weight)\<close> appends \<open>(v, weight)\<close> to the adjacency list
  of \<open>u\<close> and, when the graph is undirected, then \<open>(u, weight)\<close> to that of \<open>v\<close>; no other
  adjacency list changes. It makes \<open>u\<close> a vertex, and \<open>v\<close> too when the graph is
  undirected; in a directed graph \<open>v\<close> is not added. \<open>vertices()\<close> is the same list as
  before when \<open>u\<close> (and \<open>v\<close>, undirected) were vertices already.
\<close>

theorem add_edge_effect:
  "set (vertices (add_edge g u v w))
     = set (vertices g) \<union> (if directed g then {u} else {u, v})
   \<and> (has_vertex g u \<and> (directed g \<or> has_vertex g v)
        \<longrightarrow> vertices (add_edge g u v w) = vertices g)
   \<and> directed (add_edge g u v w) = directed g
   \<and> (directed g \<longrightarrow>
        adj_get (adj (add_edge g u v w)) x
          = (if x = u then adj_get (adj g) u @ [(v, w)] else adj_get (adj g) x))
   \<and> (\<not> directed g \<longrightarrow>
        adj_get (adj (add_edge g u v w)) x
          = (if x = v then (if u = v then adj_get (adj g) u @ [(v, w)] else adj_get (adj g) v)
                          @ [(u, w)]
             else if x = u then adj_get (adj g) u @ [(v, w)]
             else adj_get (adj g) x))"
  using add_edge_vertex_set[of g u v w] add_edge_vertices_same[of g u v w]
    add_edge_directed[of g u v w] add_edge_adj_directed[of g u v w x]
    add_edge_adj_undirected[of g u v w x]
  by blast

text \<open>Claim C7, amended, at a directed graph with the single vertex \<open>'a'\<close>.\<close>

theorem add_edge_effect_witness:
  "vertices (add_edge \<lparr>adj = [(''a'', [])], directed = True\<rparr> ''a'' ''b'' (2::real)) = [''a'']
   \<and> adj (add_edge \<lparr>adj = [(''a'', [])], directed = True\<rparr> ''a'' ''b'' (2::real))
       = [(''a'', [(''b'', 2)])]
   \<and> has_vertex \<lparr>adj = [(''a'', [] :: (string \<times> real) list)], directed = True\<rparr> ''a''"
proof -
  let ?g = "\<lparr>adj = [(''a'', [] :: (string \<times> real) list)], directed = True\<rparr>"
  have a: "has_vertex ?g ''a''" by (simp add: has_vertex_def)
  from add_edge_effect[of ?g "''a''" "''b''" 2 "''a''"] a
  have "vertices (add_edge ?g ''a'' ''b'' 2) = vertices ?g" by simp
  then show ?thesis using a by (simp add: vertices_def add_edge_def)
qed

section \<open>Proofs: the DSW transform\<close>

lemma vine_from_inorder: "bst_inorder (vine_from t) = bst_inorder t"
  by (induction t rule: vine_from.induct) auto

lemma compress_from_inorder:
  "compress_from c t = Inr t' \<Longrightarrow> bst_inorder t' = bst_inorder t"
  by (induction c t arbitrary: t' rule: compress_from.induct) (auto simp: bind_result_eq_Inr)

lemma compress_passes_inorder:
  "compress_passes m t = Inr t' \<Longrightarrow> bst_inorder t' = bst_inorder t"
proof (induction m t arbitrary: t' rule: compress_passes.induct)
  case (1 m rt)
  show ?case
  proof (cases "m > 1")
    case True
    with "1.prems" obtain t1 where t1: "compress (m div 2) rt = Inr t1"
      "compress_passes (m div 2) t1 = Inr t'"
      by (auto split: sum.splits)
    from "1.IH"[OF True t1] compress_from_inorder[of "nat (m div 2)" rt t1] t1(1)
    show ?thesis by (simp add: compress_def)
  next
    case False
    with "1.prems" show ?thesis by simp
  qed
qed

lemma dsw_balance_inorder:
  assumes "dsw_balance t = Some (Inr t')"
  shows "bst_inorder t' = bst_inorder t"
proof (cases "count_nodes t \<le> 1")
  case True
  with assms show ?thesis by (simp add: dsw_balance_def)
next
  case False
  with assms obtain m1 where m1: "grow_m 1 (count_nodes t) = Some m1"
    and r: "bind_result (compress (count_nodes t - (m1 div 2 - 1)) (tree_to_vine t))
              (compress_passes (m1 div 2 - 1)) = Inr t'"
    by (auto simp: dsw_balance_def Let_def split: option.splits)
  from r obtain t1 where t1: "compress (count_nodes t - (m1 div 2 - 1)) (tree_to_vine t) = Inr t1"
    and t2: "compress_passes (m1 div 2 - 1) t1 = Inr t'"
    by (auto simp: bind_result_eq_Inr)
  from t1 have "bst_inorder t1 = bst_inorder (vine_from t)"
    by (simp add: compress_def tree_to_vine_def compress_from_inorder)
  with compress_passes_inorder[OF t2] show ?thesis by (simp add: vine_from_inorder)
qed

text \<open>
  Claim C3 is right about what DSW is meant to do, and the code does not do it on every
  BST: on the BST built by inserting 1, 2, 3 the call raises \<open>AttributeError\<close> instead of
  returning a tree with the in-order sequence 1, 2, 3. (\<open>dsw_balance_inorder\<close> above: when
  the call does return, the in-order sequence is the one before the call.)
\<close>

theorem dsw_balance_three_keys_raises:
  "bst_run BNone [Insert 1 ''a'' PyNone, Insert 2 ''b'' PyNone, Insert 3 ''c'' PyNone]
     = Inr (BSTNode 1 ''a'' PyNone BNone (BSTNode 2 ''b'' PyNone BNone
              (BSTNode 3 ''c'' PyNone BNone BNone)))
   \<and> dsw_balance (BSTNode 1 ''a'' PyNone BNone (BSTNode 2 ''b'' PyNone BNone
              (BSTNode 3 ''c'' PyNone BNone BNone)))
     = Some (Inl AttributeError)"
  by code_simp

text \<open>
  Claim C4 is right about what DSW is meant to do, and the code does not do it on every
  BST: on the scenario of the specification (the keys 1 to 15 inserted in ascending
  order, then \<open>dsw_balance\<close>) the call raises \<open>AttributeError\<close>, so there is no tree of
  height 4 after it. The loop \<open>while m <= n\<close> leaves \<open>m = 16\<close>, hence \<open>m = 7\<close> where the
  docstring's \<open>2^floor(log2(n+1)) - 1\<close> is 15, and the first pass asks for 8 rotations on a
  vine of 15 nodes.
\<close>

theorem dsw_balance_fifteen_keys_raises:
  "count_nodes (fold (\<lambda>k t. bst_insert t k [] PyNone)
       [1, 2, 3, 4, 5, 6, 7, 8, 9, 10, 11, 12, 13, 14, 15] BNone) = 15
   \<and> grow_m 1 15 = Some 16
   \<and> dsw_balance (fold (\<lambda>k t. bst_insert t k [] PyNone)
       [1, 2, 3, 4, 5, 6, 7, 8, 9, 10, 11, 12, 13, 14, 15] BNone)
     = Some (Inl AttributeError)"
  by code_simp

text \<open>
  Claim C10 is what the docstring of \<open>dsw_balance\<close> promises, and the code breaks it: on
  the three-node BST with root 2 the vine is 1, 2, 3, the loop gives \<open>m = 1\<close>, and the
  first pass of \<open>n - m = 2\<close> rotations reaches, in its second iteration, \<open>child = 3\<close> with
  \<open>next_child = None\<close>; \<open>next_child.left\<close> raises \<open>AttributeError\<close>.
\<close>

theorem compress_reads_missing_next_child:
  "count_nodes (BSTNode 2 ''b'' PyNone (BSTNode 1 ''a'' PyNone BNone BNone)
       (BSTNode 3 ''c'' PyNone BNone BNone)) = 3
   \<and> grow_m 1 3 = Some 4
   \<and> tree_to_vine (BSTNode 2 ''b'' PyNone (BSTNode 1 ''a'' PyNone BNone BNone)
       (BSTNode 3 ''c'' PyNone BNone BNone))
     = BSTNode 1 ''a'' PyNone BNone (BSTNode 2 ''b'' PyNone BNone
         (BSTNode 3 ''c'' PyNone BNone BNone))
   \<and> compress_from 1 (BSTNode 3 ''c'' PyNone BNone BNone) = Inl AttributeError
   \<and> compress (3 - (4 div 2 - 1)) (BSTNode 1 ''a'' PyNone BNone (BSTNode 2 ''b'' PyNone BNone
         (BSTNode 3 ''c'' PyNone BNone BNone))) = Inl AttributeError
   \<and> dsw_balance (BSTNode 2 ''b'' PyNone (BSTNode 1 ''a'' PyNone BNone BNone)
       (BSTNode 3 ''c'' PyNone BNone BNone)) = Some (Inl AttributeError)"
  by code_simp

section \<open>Proofs: when the DSW transform raises\<close>

lemma vine_from_count: "count_nodes (vine_from t) = count_nodes t"
  by (induction t rule: vine_from.induct) auto

lemma vine_from_is_vine: "is_vine (vine_from t)"
  by (induction t rule: vine_from.induct) auto

lemma vine_rlen: "is_vine t \<Longrightarrow> int (rlen t) = count_nodes t"
  by (induction t) auto

lemma tree_to_vine_rlen: "int (rlen (tree_to_vine t)) = count_nodes t"
  by (simp add: tree_to_vine_def vine_rlen vine_from_is_vine vine_from_count)

lemma compress_from_ok:
  "2 * c \<le> rlen t \<Longrightarrow> \<exists>t'. compress_from c t = Inr t' \<and> rlen t' = rlen t - c"
proof (induction c t rule: compress_from.induct)
  case (4 c ck cn cd cl nk nn nd nl nr)
  then have "2 * c \<le> rlen nr" by simp
  from 4(1)[OF this] obtain r' where "compress_from c nr = Inr r'" "rlen r' = rlen nr - c"
    by blast
  with 4(2) show ?case by simp
qed auto

lemma compress_from_raises:
  "rlen t < 2 * c \<Longrightarrow> odd (rlen t) \<Longrightarrow> compress_from c t = Inl AttributeError"
proof (induction c t rule: compress_from.induct)
  case (4 c ck cn cd cl nk nn nd nl nr)
  then have "rlen nr < 2 * c" "odd (rlen nr)" by auto
  from 4(1)[OF this] show ?case by simp
qed auto

lemma grow_m_power:
  "0 < m \<Longrightarrow> \<exists>j. grow_m m n = Some (m * 2 ^ j) \<and> n < m * 2 ^ j \<and> (j = 0 \<or> m * 2 ^ (j - 1) \<le> n)"
proof (induction "nat (n + 1 - m)" arbitrary: m rule: less_induct)
  case less
  show ?case
  proof (cases "m \<le> n")
    case False
    then have "grow_m m n = Some (m * 2 ^ 0)" by (subst grow_m.simps) simp
    with False show ?thesis by (intro exI[of _ 0]) simp
  next
    case True
    with less.prems have "nat (n + 1 - m * 2) < nat (n + 1 - m)" by simp
    from less.hyps[OF this] less.prems obtain j where
      j: "grow_m (m * 2) n = Some (m * 2 * 2 ^ j)" "n < m * 2 * 2 ^ j"
         "j = 0 \<or> m * 2 * 2 ^ (j - 1) \<le> n"
      by fastforce
    have g: "grow_m m n = grow_m (m * 2) n" using True by (subst grow_m.simps) simp
    have "j = 0 \<or> m * 2 ^ j \<le> n"
    proof (cases j)
      case 0 then show ?thesis by simp
    next
      case (Suc i)
      with j(3) show ?thesis by (simp add: mult.assoc)
    qed
    with True have le: "m * 2 ^ (Suc j - 1) \<le> n" by auto
    show ?thesis
      using g j(1,2) le by (intro exI[of _ "Suc j"]) (simp add: mult.assoc)
  qed
qed

lemma compress_passes_ok:
  "m \<le> int (rlen t) \<Longrightarrow> \<exists>t'. compress_passes m t = Inr t'"
proof (induction m t rule: compress_passes.induct)
  case (1 m rt)
  show ?case
  proof (cases "m > 1")
    case False
    then show ?thesis by simp
  next
    case True
    let ?c = "nat (m div 2)"
    from True "1.prems" have c: "2 * ?c \<le> rlen rt" by linarith
    from compress_from_ok[OF c] obtain t1 where t1: "compress_from ?c rt = Inr t1"
      "rlen t1 = rlen rt - ?c" by blast
    then have t1': "compress (m div 2) rt = Inr t1" by (simp add: compress_def)
    from t1(2) True "1.prems" have "m div 2 \<le> int (rlen t1)" by linarith
    from "1.IH"[OF True t1' this] t1' True show ?thesis by simp
  qed
qed

lemma power_two_between:
  assumes "(2::int) ^ (j - 1) < 2 ^ k" "(2::int) ^ k \<le> 2 ^ j"
  shows "k = j"
proof -
  from assms(2) have "k \<le> j" by simp
  moreover from assms(1) have "j - 1 < k" by simp
  ultimately show ?thesis by linarith
qed

lemma dsw_balance_small: "count_nodes t \<le> 1 \<Longrightarrow> dsw_balance t = Some (Inr t)"
  by (simp add: dsw_balance_def)

lemma dsw_balance_cases:
  assumes n2: "2 \<le> count_nodes t"
  shows "(\<exists>k. count_nodes t + 1 = 2 ^ k) \<Longrightarrow> dsw_balance t = Some (Inl AttributeError)"
    and "\<not> (\<exists>k. count_nodes t + 1 = 2 ^ k) \<Longrightarrow> \<exists>t'. dsw_balance t = Some (Inr t')"
proof -
  define n where "n = count_nodes t"
  define v where "v = tree_to_vine t"
  have rl: "int (rlen v) = n" by (simp add: v_def n_def tree_to_vine_rlen)
  from grow_m_power[of 1 n] obtain j where j: "grow_m 1 n = Some (2 ^ j)" "n < 2 ^ j"
    "j = 0 \<or> 2 ^ (j - 1) \<le> n" by auto
  have j0: "j \<noteq> 0"
  proof
    assume "j = 0"
    with j(2) n2 show False by (simp add: n_def)
  qed
  with j(3) have lo: "(2::int) ^ (j - 1) \<le> n" by simp
  from j0 have P: "(2::int) ^ j = 2 * 2 ^ (j - 1)" by (cases j) auto
  define m where "m = (2::int) ^ j div 2 - 1"
  have m: "m = 2 ^ (j - 1) - 1" by (simp add: m_def P)
  have d: "dsw_balance t = Some (bind_result (compress (n - m) v) (compress_passes m))"
    using n2 j(1) by (simp add: dsw_balance_def Let_def n_def v_def m_def)
  {
    assume "\<exists>k. count_nodes t + 1 = 2 ^ k"
    then obtain k where k: "n + 1 = 2 ^ k" by (auto simp: n_def)
    have "(2::int) ^ (j - 1) < 2 ^ k" using lo k by linarith
    moreover have "(2::int) ^ k \<le> 2 ^ j" using j(2) k by linarith
    ultimately have "k = j" by (rule power_two_between)
    with k have n: "n = 2 ^ j - 1" by simp
    have "odd n" using n P by simp
    then have o: "odd (rlen v)" using rl by (metis even_of_nat)
    have "rlen v < 2 * nat (n - m)" using rl n m P by linarith
    from compress_from_raises[OF this o] d
    show "dsw_balance t = Some (Inl AttributeError)" by (simp add: compress_def)
  }
  {
    assume no: "\<not> (\<exists>k. count_nodes t + 1 = 2 ^ k)"
    then have "n + 1 \<noteq> 2 ^ j" by (auto simp: n_def)
    with j(2) have "n + 1 < 2 ^ j" by linarith
    then have c: "2 * nat (n - m) \<le> rlen v" using rl m P lo by linarith
    from compress_from_ok[OF c] obtain t1 where t1: "compress_from (nat (n - m)) v = Inr t1"
      "rlen t1 = rlen v - nat (n - m)" by blast
    then have "m \<le> int (rlen t1)" using rl m lo by linarith
    from compress_passes_ok[OF this] obtain t' where "compress_passes m t1 = Inr t'" by blast
    with t1(1) d show "\<exists>t'. dsw_balance t = Some (Inr t')" by (simp add: compress_def)
  }
qed

text \<open>
  When \<open>dsw_balance\<close> raises: exactly on the trees of \<open>n\<close> nodes with \<open>n \<ge> 2\<close> and
  \<open>n + 1\<close> a power of two (3, 7, 15, ... nodes); on every other tree it returns.
\<close>

lemma dsw_balance_raises_iff:
  "dsw_balance t = Some (Inl AttributeError)
     \<longleftrightarrow> 2 \<le> count_nodes t \<and> (\<exists>k. count_nodes t + 1 = 2 ^ k)"
proof (cases "2 \<le> count_nodes t")
  case True
  from dsw_balance_cases[OF True] show ?thesis using True by fastforce
next
  case False
  then have "count_nodes t \<le> 1" by simp
  from dsw_balance_small[OF this] False show ?thesis by simp
qed

lemma dsw_balance_returns_iff:
  "(\<exists>t'. dsw_balance t = Some (Inr t'))
     \<longleftrightarrow> count_nodes t \<le> 1 \<or> \<not> (\<exists>k. count_nodes t + 1 = 2 ^ k)"
proof (cases "2 \<le> count_nodes t")
  case True
  from dsw_balance_cases[OF True] show ?thesis using True by fastforce
next
  case False
  then have le: "count_nodes t \<le> 1" by simp
  from dsw_balance_small[OF le] le show ?thesis by simp
qed

end
